theory Spec2Isabelle
  imports Complex_Main "HOL-Library.AList"
begin

section \<open>Failures\<close>

text \<open>
  The exceptions the code raises. \<open>ParseError\<close>, \<open>ValidationError\<close> and
  \<open>APIException\<close> are the three rest-framework classes used by the sources (neither
  of the first two is a subclass of the other); the first and the last carry the detail
  string they were raised with. A \<open>ValidationError\<close> holds its detail as a list of
  messages: a single string given as detail becomes a list of one element, a list of
  strings is kept as it is. \<open>PyTypeError\<close>, \<open>PyIndexError\<close> and \<open>PyValueError\<close>
  are the interpreter's own exceptions.
\<close>

datatype error =
    ParseError string
  | ValidationError "string list"
  | APIException string
  | PyTypeError string
  | PyIndexError
  | PyValueError string

section \<open>class\_registry.py\<close>

text \<open>
  A schema class, as far as the registry looks at it: the module that defines it
  (\<open>cls.__module__\<close>) and its identity as an object.
\<close>

record schema_class =
  cls_module :: string
  cls_ident :: nat

type_synonym registry = "string \<rightharpoonup> schema_class list"

definition fullpath_of :: "string \<Rightarrow> string \<Rightarrow> string" where
  "fullpath_of modname classname = modname @ ''.'' @ classname"

definition register :: "string \<Rightarrow> schema_class \<Rightarrow> registry \<Rightarrow> registry" where
  "register classname cls reg =
     (let modname = cls_module cls;
          fullpath = fullpath_of modname classname;
          reg1 = (case reg classname of
                    Some entries \<Rightarrow>
                      if \<not> list_ex (\<lambda>each. cls_module each = modname) entries
                      then reg(classname \<mapsto> entries @ [cls])
                      else reg
                  | None \<Rightarrow> reg(classname \<mapsto> [cls]))
      in (case reg1 fullpath of
            None \<Rightarrow> reg1(fullpath \<mapsto> [cls])
          | Some _ \<Rightarrow> reg1(fullpath \<mapsto> [cls])))"

text \<open>
  \<open>get_class\<close>: the two failures raise the same \<open>APIException\<close>. The line each of
  them prints first is not part of what the caller gets.
\<close>

definition get_class :: "string \<Rightarrow> registry \<Rightarrow> error + schema_class" where
  "get_class classname reg =
     (case reg classname of
        None \<Rightarrow> Inl (APIException ''Contact admin for support'')
      | Some classes \<Rightarrow>
          if length classes > 1 then Inl (APIException ''Contact admin for support'')
          else (case classes of [] \<Rightarrow> Inl PyIndexError | c # _ \<Rightarrow> Inr c))"

text \<open>A run of the program: classes are registered one after another.\<close>

definition register_seq :: "(string \<times> schema_class) list \<Rightarrow> registry \<Rightarrow> registry" where
  "register_seq regs reg = foldl (\<lambda>r (n, c). register n c r) reg regs"

text \<open>A class name written in a class statement is an identifier: it holds no dot.\<close>

definition dotfree :: "string \<Rightarrow> bool" where
  "dotfree s = (CHR ''.'' \<notin> set s)"

text \<open>
  What the entry under a simple name holds after a run of registrations: one class for
  each module that registered the name, and no entry when nobody did.
\<close>

definition simple_inv :: "(string \<times> schema_class) list \<Rightarrow> string \<Rightarrow> registry \<Rightarrow> bool" where
  "simple_inv regs n reg =
     (case reg n of
        None \<Rightarrow> (\<forall>c. (n, c) \<notin> set regs)
      | Some cs \<Rightarrow> cls_module ` set cs = {cls_module c | c. (n, c) \<in> set regs}
                    \<and> distinct (map cls_module cs))"

section \<open>Values\<close>

text \<open>
  The untyped input and output values. \<open>Missing\<close> is the singleton \<open>utils.missing\<close>.
  A \<open>PStr\<close> is a text string over ASCII; a \<open>PBytes\<close> is a byte string, given by
  its UTF-8 decoding when it has one. \<open>PFloat\<close> holds a finite float (every finite
  float is a rational number). \<open>PList\<close> is a list, \<open>PDict\<close> a dict (an association
  list in insertion order, keys distinct), \<open>PObj\<close> any other hashable object, which
  is equal to itself only.
\<close>

datatype pyval =
    Missing
  | PNone
  | PBool bool
  | PInt int
  | PFloat rat
  | PStr string
  | PBytes "string option"
  | PList "pyval list"
  | PDict "(string \<times> pyval) list"
  | PObj nat

text \<open>Truth value of an object (\<open>_Missing.__bool__\<close> returns \<open>False\<close>).\<close>

fun truthy_val :: "pyval \<Rightarrow> bool" where
  "truthy_val Missing = False"
| "truthy_val PNone = False"
| "truthy_val (PBool b) = b"
| "truthy_val (PInt i) = (i \<noteq> 0)"
| "truthy_val (PFloat x) = (x \<noteq> 0)"
| "truthy_val (PStr s) = (s \<noteq> [])"
| "truthy_val (PBytes b) = (b \<noteq> Some [])"
| "truthy_val (PList xs) = (xs \<noteq> [])"
| "truthy_val (PDict d) = (d \<noteq> [])"
| "truthy_val (PObj _) = True"

text \<open>Numbers compare by value across \<open>bool\<close>, \<open>int\<close> and \<open>float\<close>.\<close>

fun num_of :: "pyval \<Rightarrow> rat option" where
  "num_of (PBool b) = Some (if b then 1 else 0)"
| "num_of (PInt i) = Some (of_int i)"
| "num_of (PFloat x) = Some x"
| "num_of _ = None"

definition py_eq :: "pyval \<Rightarrow> pyval \<Rightarrow> bool" where
  "py_eq a b =
     (case (num_of a, num_of b) of
        (Some x, Some y) \<Rightarrow> x = y
      | (None, None) \<Rightarrow> a = b
      | _ \<Rightarrow> False)"

fun hashable :: "pyval \<Rightarrow> bool" where
  "hashable (PList _) = False"
| "hashable (PDict _) = False"
| "hashable _ = True"

text \<open>\<open>value in s\<close> for a set \<open>s\<close>: hashing an unhashable value raises.\<close>

definition py_in :: "pyval \<Rightarrow> pyval list \<Rightarrow> error + bool" where
  "py_in v s =
     (if hashable v then Inr (list_ex (py_eq v) s)
      else Inl (PyTypeError ''unhashable type''))"

text \<open>\<open>str.upper\<close> on ASCII text: the lower-case letters map to their capitals.\<close>

definition upper_char :: "char \<Rightarrow> char" where
  "upper_char c =
     (case map_of (zip ''abcdefghijklmnopqrstuvwxyz'' ''ABCDEFGHIJKLMNOPQRSTUVWXYZ'') c of
        Some u \<Rightarrow> u
      | None \<Rightarrow> c)"

definition upper :: "string \<Rightarrow> string" where
  "upper s = map upper_char s"

text \<open>\<open>str(None)\<close> is \<open>None\<close>: an unbound field's name in a message.\<close>

definition str_name :: "string option \<Rightarrow> string" where
  "str_name n = (case n of None \<Rightarrow> ''None'' | Some s \<Rightarrow> s)"

definition digit_char :: "nat \<Rightarrow> char" where
  "digit_char d = ''0123456789'' ! d"

fun str_nat :: "nat \<Rightarrow> string" where
  "str_nat n = (if n < 10 then [digit_char n] else str_nat (n div 10) @ [digit_char (n mod 10)])"

declare str_nat.simps [simp del]

section \<open>utils.py\<close>

definition is_iterable_but_not_string :: "pyval \<Rightarrow> bool" where
  "is_iterable_but_not_string obj =
     (case obj of PList _ \<Rightarrow> True | PDict _ \<Rightarrow> True | _ \<Rightarrow> False)"

definition is_Mapping :: "pyval \<Rightarrow> bool" where
  "is_Mapping obj = (case obj of PDict _ \<Rightarrow> True | _ \<Rightarrow> False)"

definition is_collection :: "pyval \<Rightarrow> bool" where
  "is_collection obj = (is_iterable_but_not_string obj \<and> \<not> is_Mapping obj)"

definition has_dot :: "string \<Rightarrow> bool" where
  "has_dot key = (CHR ''.'' \<in> set key)"

text \<open>\<open>key.split(".", 1)\<close> on a key that holds a dot.\<close>

definition split_head :: "string \<Rightarrow> string" where
  "split_head key = takeWhile (\<lambda>c. c \<noteq> CHR ''.'') key"

definition split_rest :: "string \<Rightarrow> string" where
  "split_rest key = tl (dropWhile (\<lambda>c. c \<noteq> CHR ''.'') key)"

function set_value :: "(string \<times> pyval) list \<Rightarrow> string \<Rightarrow> pyval \<Rightarrow> error + (string \<times> pyval) list" where
  "set_value dct key val =
     (if has_dot key then
        (case (case map_of dct (split_head key) of None \<Rightarrow> PDict [] | Some t \<Rightarrow> t) of
           PDict target \<Rightarrow>
             (case set_value target (split_rest key) val of
                Inl e \<Rightarrow> Inl e
              | Inr target' \<Rightarrow> Inr (AList.update (split_head key) (PDict target') dct))
         | _ \<Rightarrow> Inl (PyValueError ''Cannot set key due to existing value''))
      else Inr (AList.update key val dct))"
  by pat_completeness auto
termination
proof (relation "measure (\<lambda>(dct, key, val). length key)")
  show "wf (measure (\<lambda>(dct, key, val). length key))" by simp
next
  fix dct :: "(string \<times> pyval) list" and key :: string and val :: pyval
    and x :: pyval and target :: "(string \<times> pyval) list"
  assume "has_dot key"
  then have "dropWhile (\<lambda>c. c \<noteq> CHR ''.'') key \<noteq> []"
    by (simp add: has_dot_def)
  then have "length (split_rest key) < length (dropWhile (\<lambda>c. c \<noteq> CHR ''.'') key)"
    by (simp add: split_rest_def)
  also have "\<dots> \<le> length key"
    by (simp add: length_dropWhile_le)
  finally show "((target, split_rest key, val), (dct, key, val))
                  \<in> measure (\<lambda>(dct, key, val). length key)"
    by simp
qed

declare set_value.simps [simp del]

section \<open>validate.py\<close>

text \<open>
  A validator is a callable of the value and the field's name; it returns a value or
  raises. \<open>is_Validator\<close> says whether it is an instance of the class \<open>Validator\<close>.
\<close>

record validator =
  is_Validator :: bool
  call :: "pyval \<Rightarrow> string option \<Rightarrow> error + pyval"

text \<open>\<open>And.__call__\<close>: the loop over the validators.\<close>

fun And_call :: "validator list \<Rightarrow> pyval \<Rightarrow> string option \<Rightarrow> error + pyval" where
  "And_call [] val nm = Inr val"
| "And_call (v # vs) val nm =
     (case call v val nm of
        Inl e \<Rightarrow> Inl e
      | Inr r \<Rightarrow>
          if \<not> is_Validator v \<and> r = PBool False
          then Inl (ValidationError [''Invalid arguments''])
          else And_call vs val nm)"

section \<open>fields.py and schema.py\<close>

text \<open>
  \<open>load_default\<close> is a value (\<open>missing\<close> when none was given) or a callable, given
  by what calling it does.
\<close>

datatype default = Value pyval | Producer "error + pyval"

text \<open>
  A field object: its kind with the kind's own attributes, and the attributes of the base
  class. A \<open>KList\<close> holds \<open>inner\<close>. A \<open>KNested\<close> holds the schema instance cached in
  \<open>_schema\<close> and the field's \<open>many\<close>. \<open>KString\<close> holds \<open>upper_case\<close>.
  \<open>KCustom\<close> is any other subclass, given by its \<open>_deserialize\<close> as a function of the
  value and the field's name. A schema instance holds \<open>many\<close> and \<open>load_fields\<close>.
\<close>

datatype field =
  Field (kind: kind) (load_default: default) (validators: "validator list")
        (required: bool) (fname: "string option")
and kind =
    KField
  | KString bool
  | KBoolean
  | KList field
  | KNested schema bool
  | KCustom "pyval \<Rightarrow> string option \<Rightarrow> error + pyval"
and schema =
  Schema (many: bool) (load_fields: "(string \<times> field) list")

definition is_missing :: "pyval \<Rightarrow> bool" where
  "is_missing v = (v = Missing \<or> v = PStr [] \<or> v = PNone)"

definition truthy_default :: "default \<Rightarrow> bool" where
  "truthy_default d = (case d of Value v \<Rightarrow> truthy_val v | Producer _ \<Rightarrow> True)"

definition validate_missing :: "field \<Rightarrow> pyval \<Rightarrow> error + unit" where
  "validate_missing f v =
     (if is_missing v \<and> required f then
        (if truthy_default (load_default f) then Inr ()
         else Inl (ParseError (''Field '' @ str_name (fname f) @ '' is required'')))
      else Inr ())"

definition validate_field :: "field \<Rightarrow> pyval \<Rightarrow> string option \<Rightarrow> error + unit" where
  "validate_field f v nm =
     (case And_call (validators f) v nm of Inl e \<Rightarrow> Inl e | Inr _ \<Rightarrow> Inr ())"

definition truthy_set :: "pyval list" where
  "truthy_set = [PStr ''T'', PStr ''TRUE'', PStr ''Y'', PStr ''YES'', PStr ''1'', PInt 1, PBool True]"

definition falsy_set :: "pyval list" where
  "falsy_set = [PStr ''F'', PStr ''FALSE'', PStr ''N'', PStr ''NO'', PStr ''0'', PInt 0,
                PFloat 0, PBool False]"

definition Boolean_deserialize :: "string option \<Rightarrow> pyval \<Rightarrow> error + pyval" where
  "Boolean_deserialize nm v =
     (if v = PNone then Inr PNone
      else
        let v' = (case v of PStr s \<Rightarrow> PStr (upper s) | _ \<Rightarrow> v)
        in (case py_in v' truthy_set of
              Inl e \<Rightarrow> Inl e
            | Inr True \<Rightarrow> Inr (PBool True)
            | Inr False \<Rightarrow>
                (case py_in v' falsy_set of
                   Inl e \<Rightarrow> Inl e
                 | Inr True \<Rightarrow> Inr (PBool False)
                 | Inr False \<Rightarrow>
                     Inl (ValidationError
                            [''Field '' @ str_name nm @ '' must be a boolean value'']))))"

definition String_deserialize :: "bool \<Rightarrow> string option \<Rightarrow> pyval \<Rightarrow> error + pyval" where
  "String_deserialize upper_case nm v =
     (case v of
        PStr s \<Rightarrow> Inr (PStr (if upper_case then upper s else s))
      | PBytes (Some s) \<Rightarrow> Inr (PStr (if upper_case then upper s else s))
      | PBytes None \<Rightarrow>
          Inl (ValidationError [''Field '' @ str_name nm @ '' has some invalid characters''])
      | _ \<Rightarrow> Inl (ValidationError [''Except field '' @ str_name nm @ '' is a string'']))"

definition data_get :: "(string \<times> pyval) list \<Rightarrow> string \<Rightarrow> pyval" where
  "data_get data field_name = (case map_of data field_name of None \<Rightarrow> Missing | Some v \<Rightarrow> v)"

text \<open>
  The handler of the loop in \<open>List._deserialize\<close>: only a \<open>ValidationError\<close> is
  caught, and of its detail only \<open>error.detail[0]\<close> goes into the new message; on an
  empty detail that index raises.
\<close>

definition reraise_indexed :: "string option \<Rightarrow> nat \<Rightarrow> error \<Rightarrow> error" where
  "reraise_indexed nm idx e =
     (case e of
        ValidationError detail \<Rightarrow>
          (case detail of
             [] \<Rightarrow> PyIndexError
           | first # _ \<Rightarrow>
               ValidationError
                 [''Field '' @ str_name nm @ ''['' @ str_nat (idx + 1) @ '']: '' @ first])
      | _ \<Rightarrow> e)"

text \<open>
  \<open>Field.deserialize\<close>, the kinds' \<open>_deserialize\<close> (\<open>deserialize_kind\<close>), the loop of
  \<open>List._deserialize\<close> (\<open>list_loop\<close>, at index \<open>idx\<close> with \<open>result\<close> so far),
  \<open>Schema.load\<close>, \<open>Schema._deserialize\<close> with its two loops: over the elements when
  \<open>many\<close> holds (\<open>many_loop\<close>) and over \<open>load_fields\<close> otherwise (\<open>fields_loop\<close>, with
  \<open>ret_d\<close> so far).
\<close>

function (sequential)
    deserialize :: "field \<Rightarrow> pyval \<Rightarrow> error + pyval"
and deserialize_kind :: "field \<Rightarrow> pyval \<Rightarrow> error + pyval"
and list_loop :: "field \<Rightarrow> string option \<Rightarrow> nat \<Rightarrow> pyval list \<Rightarrow> pyval list \<Rightarrow> error + pyval"
and load :: "schema \<Rightarrow> pyval \<Rightarrow> error + pyval"
and schema_deserialize :: "schema \<Rightarrow> bool \<Rightarrow> pyval \<Rightarrow> error + pyval"
and many_loop :: "schema \<Rightarrow> pyval list \<Rightarrow> pyval list \<Rightarrow> error + pyval"
and fields_loop :: "(string \<times> field) list \<Rightarrow> (string \<times> pyval) list \<Rightarrow> (string \<times> pyval) list
                      \<Rightarrow> error + (string \<times> pyval) list"
where
  "deserialize f v =
     (case validate_missing f v of
        Inl e \<Rightarrow> Inl e
      | Inr _ \<Rightarrow>
          if is_missing v then
            (case load_default f of Producer r \<Rightarrow> r | Value d \<Rightarrow> Inr d)
          else
            (case deserialize_kind f v of
               Inl e \<Rightarrow> Inl e
             | Inr output \<Rightarrow>
                 (case validate_field f output (fname f) of
                    Inl e \<Rightarrow> Inl e
                  | Inr _ \<Rightarrow> Inr output)))"
| "deserialize_kind (Field KField d vs r nm) v = Inr v"
| "deserialize_kind (Field (KString upper_case) d vs r nm) v = String_deserialize upper_case nm v"
| "deserialize_kind (Field KBoolean d vs r nm) v = Boolean_deserialize nm v"
| "deserialize_kind (Field (KCustom g) d vs r nm) v = g v nm"
| "deserialize_kind (Field (KList inner) d vs r nm) v =
     (if \<not> is_collection v
      then Inl (ValidationError [''Field '' @ str_name nm @ '' must be iterable''])
      else (case v of PList xs \<Rightarrow> list_loop inner nm 0 xs []
                    | _ \<Rightarrow> Inl (ValidationError [''Field '' @ str_name nm @ '' must be iterable''])))"
| "deserialize_kind (Field (KNested s field_many) d vs r nm) v =
     (if (many s \<or> field_many) \<and> \<not> is_collection v
      then Inl (ValidationError [''Field '' @ str_name nm @ '' must be iterable''])
      else load s v)"
| "list_loop inner nm idx [] result = Inr (PList result)"
| "list_loop inner nm idx (each # rest) result =
     (case deserialize inner each of
        Inl e \<Rightarrow> Inl (reraise_indexed nm idx e)
      | Inr x \<Rightarrow> list_loop inner nm (idx + 1) rest (result @ [x]))"
| "load s data = schema_deserialize s (many s) data"
| "schema_deserialize s True data =
     (if \<not> is_collection data
      then Inl (ValidationError [''Except data is an iterable value''])
      else (case data of PList ds \<Rightarrow> many_loop s ds []
                       | _ \<Rightarrow> Inl (ValidationError [''Except data is an iterable value''])))"
| "schema_deserialize s False data =
     (case data of
        PDict d \<Rightarrow>
          (case fields_loop (load_fields s) d [] of
             Inl e \<Rightarrow> Inl e
           | Inr ret_d \<Rightarrow> Inr (PDict ret_d))
      | _ \<Rightarrow> Inl (ValidationError [''Except data is an objects'']))"
| "many_loop s [] ret_l = Inr (PList ret_l)"
| "many_loop s (d # ds) ret_l =
     (case schema_deserialize s False d of
        Inl e \<Rightarrow> Inl e
      | Inr x \<Rightarrow> many_loop s ds (ret_l @ [x]))"
| "fields_loop [] data ret_d = Inr ret_d"
| "fields_loop ((field_name, field_obj) # fs) data ret_d =
     (case deserialize field_obj (data_get data field_name) of
        Inl e \<Rightarrow> Inl e
      | Inr val \<Rightarrow>
          if val \<noteq> Missing then
            (case set_value ret_d field_name val of
               Inl e \<Rightarrow> Inl e
             | Inr ret_d' \<Rightarrow> fields_loop fs data ret_d')
          else fields_loop fs data ret_d)"
  by pat_completeness auto

termination
  apply (relation "inv_image (less_than <*lex*> less_than <*lex*> less_than)
     (\<lambda>x. case x of
        Inl (Inl (f, v)) \<Rightarrow> (size f, 1::nat, 0::nat)
      | Inl (Inr (Inl (f, v))) \<Rightarrow> (size f, 0, 0)
      | Inl (Inr (Inr (inner, nm, idx, xs, res))) \<Rightarrow> (size inner, 2, length xs)
      | Inr (Inl (Inl (s, v))) \<Rightarrow> (size s, 7, 0)
      | Inr (Inl (Inr (s, m, v))) \<Rightarrow> (size s, if m then 6 else 4, 0)
      | Inr (Inr (Inl (s, ds, res))) \<Rightarrow> (size s, 5, length ds)
      | Inr (Inr (Inr (fs, d, res))) \<Rightarrow>
          (size_list (size_prod (\<lambda>_. 0) size) fs, 0, 0))")
  subgoal by (intro wf_inv_image wf_lex_prod wf_less_than)
  subgoal by simp
  subgoal by simp
  subgoal by simp
  subgoal by simp
  subgoal by simp
  subgoal by simp
  subgoal by simp
  subgoal for s by (cases s) simp
  subgoal by simp
  subgoal by simp
  subgoal by simp
  subgoal by simp
  subgoal by simp
  done

declare deserialize.simps [simp del]

section \<open>schema.py: collecting the declared fields\<close>

text \<open>
  A class attribute, as far as \<open>is_instance_or_subclass(value, FieldABC)\<close> tells: a
  field object, a subclass of \<open>FieldABC\<close> itself (by its name), or anything else.
\<close>

datatype 'f attr = FieldInstance 'f | FieldSubclass string | OtherAttr

fun is_field_attr :: "'f attr \<Rightarrow> bool" where
  "is_field_attr (FieldInstance _) = True"
| "is_field_attr (FieldSubclass _) = True"
| "is_field_attr OtherAttr = False"

text \<open>
  A dict with string keys is an association list in insertion order. \<open>dict(pairs)\<close>
  inserts the pairs one after another: a key that is present keeps its place and takes the
  new value, a new key goes to the end.
\<close>

type_synonym 'f attrs = "(string \<times> 'f attr) list"

definition py_dict :: "(string \<times> 'v) list \<Rightarrow> (string \<times> 'v) list" where
  "py_dict pairs = fold (\<lambda>(k, v). AList.update k v) pairs []"

definition get_fields :: "'f attrs \<Rightarrow> 'f attrs" where
  "get_fields attrs = filter (\<lambda>(field_name, field_value). is_field_attr field_value) attrs"

text \<open>
  A class of the method resolution order: its \<open>_declared_fields\<close> attribute when it
  has one, and its \<open>__dict__\<close>.
\<close>

record 'f klass =
  declared_fields_attr :: "'f attrs option"
  cls_dict :: "'f attrs"

definition getattr_declared_fields :: "'f klass \<Rightarrow> 'f attrs" where
  "getattr_declared_fields base =
     (case declared_fields_attr base of Some d \<Rightarrow> d | None \<Rightarrow> cls_dict base)"

text \<open>\<open>mro[:0:-1]\<close> is the order reversed, without the class itself at its head.\<close>

definition get_fields_by_mro :: "'f klass list \<Rightarrow> 'f attrs" where
  "get_fields_by_mro mro =
     concat (map (\<lambda>base. get_fields (getattr_declared_fields base)) (rev (tl mro)))"

text \<open>
  \<open>SchemaMeta.__new__\<close> for a class body \<open>attrs\<close> whose bases give the resolution order
  \<open>bases_mro\<close> after the new class.
\<close>

definition SchemaMeta_new :: "'f attrs \<Rightarrow> 'f klass list \<Rightarrow> 'f klass" where
  "SchemaMeta_new attrs bases_mro =
     (let cls_fields = get_fields attrs;
          attrs' = filter (\<lambda>(n, v). n \<notin> fst ` set cls_fields) attrs;
          klass = \<lparr>declared_fields_attr = None, cls_dict = attrs'\<rparr>;
          inherited_fields = get_fields_by_mro (klass # bases_mro)
      in klass\<lparr>declared_fields_attr := Some (py_dict (inherited_fields @ cls_fields))\<rparr>)"

text \<open>
  The classes every schema inherits from: \<open>object\<close>, \<open>SchemaABC\<close> (whose body sets
  \<open>_declared_fields = {}\<close>) and \<open>Schema\<close>, made by the metaclass from a body without
  fields.
\<close>

definition object_cls :: "'f klass" where
  "object_cls = \<lparr>declared_fields_attr = None, cls_dict = [(''__doc__'', OtherAttr)]\<rparr>"

definition SchemaABC_cls :: "'f klass" where
  "SchemaABC_cls = \<lparr>declared_fields_attr = Some [],
                     cls_dict = [(''many'', OtherAttr), (''_declared_fields'', OtherAttr)]\<rparr>"

definition Schema_cls :: "'f klass" where
  "Schema_cls = SchemaMeta_new
     [(''error_messages'', OtherAttr), (''_default_error_messages'', OtherAttr),
      (''_declared_fields'', OtherAttr), (''_hooks'', OtherAttr), (''Meta'', OtherAttr),
      (''load'', OtherAttr)]
     [SchemaABC_cls, object_cls]"

text \<open>
  A chain of schema classes, each the only base of the next, given by the class bodies
  with the most derived class first. \<open>define_chain\<close> gives the resolution order of the
  most derived class, \<open>chain_declared\<close> its \<open>_declared_fields\<close>.
\<close>

fun define_chain :: "'f attrs list \<Rightarrow> 'f klass list" where
  "define_chain [] = [Schema_cls, SchemaABC_cls, object_cls]"
| "define_chain (body # older) =
     SchemaMeta_new body (define_chain older) # define_chain older"

definition chain_declared :: "'f attrs list \<Rightarrow> 'f attrs" where
  "chain_declared bodies = getattr_declared_fields (hd (define_chain bodies))"

text \<open>
  The claim's words, for a chain with the most derived class first. The names in the
  order of their first declaration: the inherited names, then the names the class itself
  declares first. The declaration of a name by the most derived class that declares it.
\<close>

fun first_declared_order :: "'f attrs list \<Rightarrow> string list" where
  "first_declared_order [] = []"
| "first_declared_order (body # older) =
     first_declared_order older
       @ filter (\<lambda>n. n \<notin> set (first_declared_order older)) (map fst (get_fields body))"

fun most_derived_declaration :: "'f attrs list \<Rightarrow> string \<Rightarrow> 'f attr option" where
  "most_derived_declaration [] n = None"
| "most_derived_declaration (body # older) n =
     (case map_of (get_fields body) n of
        Some v \<Rightarrow> Some v
      | None \<Rightarrow> most_derived_declaration older n)"

text \<open>
  Inserting pairs into a dict that holds entries already, and the table a chain of
  bodies builds up: each class inserts its own fields into the table it inherits.
\<close>

definition upd_all :: "(string \<times> 'v) list \<Rightarrow> (string \<times> 'v) list \<Rightarrow> (string \<times> 'v) list" where
  "upd_all ps d = fold (\<lambda>(k, v). AList.update k v) ps d"

fun table_of :: "'f attrs list \<Rightarrow> 'f attrs" where
  "table_of [] = []"
| "table_of (body # older) = upd_all (get_fields body) (table_of older)"

definition all_fields :: "'f attrs \<Rightarrow> bool" where
  "all_fields t = list_all (\<lambda>(n, v). is_field_attr v) t"

definition inherited_of :: "'f klass list \<Rightarrow> 'f attrs" where
  "inherited_of mro = concat (map (\<lambda>base. get_fields (getattr_declared_fields base)) (rev mro))"

section \<open>fields.py: the schema of a nested field\<close>

text \<open>
  What \<open>Nested.nested\<close> may hold once a callable has been called: a schema instance, a
  schema class, a name, or something else. The attribute itself holds such a value or a
  callable that is not a class (by its identity). \<open>schema_cache\<close> is the attribute
  \<open>_schema\<close>. The type \<open>'s\<close> is that of schema instances.
\<close>

datatype 's nested_val =
    SchemaInstance 's
  | SchemaClass schema_class
  | NameStr string
  | OtherVal

datatype 's nested_ref = Direct "'s nested_val" | Factory nat

record 's Nested =
  nested :: "'s nested_ref"
  nested_many :: bool
  schema_cache :: "'s option"

text \<open>
  The world a property access runs in: the registry, what calling each callable does,
  what calling a schema class with \<open>many\<close> does, and \<open>copy.copy\<close> followed by
  \<open>_init_fields\<close> on an instance.
\<close>

record 's world =
  the_registry :: registry
  call_factory :: "nat \<Rightarrow> error + 's nested_val"
  construct :: "schema_class \<Rightarrow> bool \<Rightarrow> error + 's"
  copy_init_fields :: "'s \<Rightarrow> 's"

text \<open>\<open>Nested.__init__\<close>: it takes no world, so it cannot resolve anything.\<close>

definition Nested_init :: "'s nested_ref \<Rightarrow> bool \<Rightarrow> 's Nested" where
  "Nested_init n m = \<lparr>nested = n, nested_many = m, schema_cache = None\<rparr>"

text \<open>The property \<open>Nested.schema\<close>: the instance returned and the field afterwards.\<close>

definition schema_property :: "'s world \<Rightarrow> 's Nested \<Rightarrow> error + ('s \<times> 's Nested)" where
  "schema_property w self =
     (case schema_cache self of
        Some s \<Rightarrow> Inr (s, self)
      | None \<Rightarrow>
          (case (case nested self of
                   Factory k \<Rightarrow> call_factory w k
                 | Direct v \<Rightarrow> Inr v) of
             Inl e \<Rightarrow> Inl e
           | Inr (SchemaInstance s) \<Rightarrow>
               (let s' = copy_init_fields w s
                in Inr (s', self\<lparr>schema_cache := Some s'\<rparr>))
           | Inr (SchemaClass schema_class) \<Rightarrow>
               (case construct w schema_class (nested_many self) of
                  Inl e \<Rightarrow> Inl e
                | Inr s \<Rightarrow> Inr (s, self\<lparr>schema_cache := Some s\<rparr>))
           | Inr (NameStr n) \<Rightarrow>
               (case get_class n (the_registry w) of
                  Inl e \<Rightarrow> Inl e
                | Inr schema_class \<Rightarrow>
                    (case construct w schema_class (nested_many self) of
                       Inl e \<Rightarrow> Inl e
                     | Inr s \<Rightarrow> Inr (s, self\<lparr>schema_cache := Some s\<rparr>)))
           | Inr OtherVal \<Rightarrow> Inl (APIException ''Contact admin for support'')))"

section \<open>fields.py: binding a field\<close>

text \<open>
  Objects live in a store, since \<open>parent\<close> and \<open>root\<close> are references. A field
  object has the attributes \<open>parent\<close>, \<open>name\<close> and \<open>root\<close> (\<open>None\<close> in the class
  \<open>FieldABC\<close>); any other object is not an instance of \<open>FieldABC\<close>.
\<close>

record binding =
  f_parent :: "nat option"
  f_name :: "string option"
  f_root :: "nat option"

datatype heap_obj = FieldObj binding | SchemaObj

type_synonym heap = "nat \<rightharpoonup> heap_obj"

definition unbound :: binding where
  "unbound = \<lparr>f_parent = None, f_name = None, f_root = None\<rparr>"

definition is_FieldABC :: "heap \<Rightarrow> nat \<Rightarrow> bool" where
  "is_FieldABC h p = (case h p of Some (FieldObj _) \<Rightarrow> True | _ \<Rightarrow> False)"

text \<open>
  \<open>Field._bind_to_schema\<close> on the field at address \<open>self\<close>. \<open>x or y\<close> is \<open>x\<close> when
  \<open>x\<close> is true: an object reference is, the empty string and \<open>None\<close> are not.
\<close>

definition bind_to_schema :: "heap \<Rightarrow> nat \<Rightarrow> string \<Rightarrow> nat \<Rightarrow> heap" where
  "bind_to_schema h self field_name schema =
     (case h self of
        Some (FieldObj b) \<Rightarrow>
          (let parent' = (case f_parent b of Some p \<Rightarrow> p | None \<Rightarrow> schema);
               name' = (case f_name b of
                          Some n \<Rightarrow> if n \<noteq> [] then n else field_name
                        | None \<Rightarrow> field_name);
               root' = (case f_root b of
                          Some r \<Rightarrow> Some r
                        | None \<Rightarrow>
                            (case h parent' of
                               Some (FieldObj pb) \<Rightarrow> f_root pb
                             | _ \<Rightarrow> Some parent'))
           in h(self \<mapsto> FieldObj \<lparr>f_parent = Some parent', f_name = Some name', f_root = root'\<rparr>))
      | _ \<Rightarrow> h)"

text \<open>A run of bindings, and a store in which no field has been bound yet.\<close>

definition bind_seq :: "(nat \<times> string \<times> nat) list \<Rightarrow> heap \<Rightarrow> heap" where
  "bind_seq calls h = foldl (\<lambda>h (self, field_name, schema). bind_to_schema h self field_name schema) h calls"

definition fresh_heap :: "heap \<Rightarrow> bool" where
  "fresh_heap h = (\<forall>a b. h a = Some (FieldObj b) \<longrightarrow> b = unbound)"

text \<open>
  The first ancestor that is not a field, reached from the field at \<open>a\<close> by following
  \<open>parent\<close>.
\<close>

inductive first_non_field_ancestor :: "heap \<Rightarrow> nat \<Rightarrow> nat \<Rightarrow> bool" where
  parent_is_it:
    "h a = Some (FieldObj b) \<Longrightarrow> f_parent b = Some p \<Longrightarrow> \<not> is_FieldABC h p
       \<Longrightarrow> first_non_field_ancestor h a p"
| through_parent:
    "h a = Some (FieldObj b) \<Longrightarrow> f_parent b = Some p \<Longrightarrow> is_FieldABC h p
       \<Longrightarrow> first_non_field_ancestor h p r \<Longrightarrow> first_non_field_ancestor h a r"

definition roots_ok :: "heap \<Rightarrow> bool" where
  "roots_ok h = (\<forall>a b r. h a = Some (FieldObj b) \<longrightarrow> f_root b = Some r
                    \<longrightarrow> first_non_field_ancestor h a r)"

section \<open>Verification\<close>

section \<open>Facts about the registry\<close>

lemma register_seq_Nil: "register_seq [] reg = reg"
  by (simp add: register_seq_def)

lemma register_seq_snoc:
  "register_seq (regs @ [(n, c)]) reg = register n c (register_seq regs reg)"
  by (simp add: register_seq_def)

lemma register_seq_append:
  "register_seq (xs @ ys) reg = register_seq ys (register_seq xs reg)"
  by (simp add: register_seq_def)

lemma fullpath_not_dotfree: "\<not> dotfree (fullpath_of m n)"
  by (simp add: dotfree_def fullpath_of_def)

lemma fullpath_neq_name: "fullpath_of m n \<noteq> n"
proof
  assume "fullpath_of m n = n"
  then have "length (fullpath_of m n) = length n" by simp
  then show False by (simp add: fullpath_of_def)
qed

lemma dotfree_suffix_unique:
  assumes "xs @ CHR ''.'' # n1 = ys @ CHR ''.'' # n2"
    and "CHR ''.'' \<notin> set n1" and "CHR ''.'' \<notin> set n2"
  shows "xs = ys \<and> n1 = n2"
  using assms
proof (induction xs arbitrary: ys)
  case Nil
  then show ?case by (cases ys) auto
next
  case (Cons x xs)
  then show ?case by (cases ys) auto
qed

lemma fullpath_inj:
  assumes "fullpath_of m1 n1 = fullpath_of m2 n2" and "dotfree n1" and "dotfree n2"
  shows "m1 = m2 \<and> n1 = n2"
  using dotfree_suffix_unique [of m1 n1 m2 n2] assms
  by (simp add: fullpath_of_def dotfree_def)

lemma register_fullpath:
  "register n c reg (fullpath_of (cls_module c) n) = Some [c]"
  by (simp add: register_def Let_def split: option.splits)

lemma register_other_key:
  assumes "k \<noteq> n" and "k \<noteq> fullpath_of (cls_module c) n"
  shows "register n c reg k = reg k"
  using assms by (simp add: register_def Let_def split: option.splits)

lemma register_simple_key:
  "register n c reg n =
     (case reg n of
        None \<Rightarrow> Some [c]
      | Some entries \<Rightarrow>
          if cls_module c \<in> cls_module ` set entries then Some entries
          else Some (entries @ [c]))"
proof -
  have ex: "list_ex (\<lambda>each. cls_module each = cls_module c) entries
              = (cls_module c \<in> cls_module ` set entries)" for entries
    unfolding list_ex_iff image_iff by (metis (lifting))
  show ?thesis
    using fullpath_neq_name [of "cls_module c" n]
    by (simp add: register_def Let_def ex split: option.splits)
qed

lemma register_seq_Cons:
  "register_seq ((n, c) # regs) reg = register_seq regs (register n c reg)"
  by (simp add: register_seq_def)

lemma register_seq_keeps_fullpath:
  assumes "\<forall>(n', c') \<in> set post. dotfree n' \<and> (n' = n \<longrightarrow> cls_module c' \<noteq> m)"
    and "dotfree n"
  shows "register_seq post reg (fullpath_of m n) = reg (fullpath_of m n)"
  using assms(1)
proof (induction post arbitrary: reg)
  case Nil
  then show ?case by (simp add: register_seq_Nil)
next
  case (Cons p post)
  obtain n' c' where p: "p = (n', c')" by (cases p)
  from Cons.prems p have df: "dotfree n'" and ne: "n' = n \<longrightarrow> cls_module c' \<noteq> m"
    by auto
  have k1: "fullpath_of m n \<noteq> n'"
    using df fullpath_not_dotfree [of m n] by auto
  have k2: "fullpath_of m n \<noteq> fullpath_of (cls_module c') n'"
    using fullpath_inj [of m n "cls_module c'" n'] df assms(2) ne by auto
  have "register_seq (p # post) reg (fullpath_of m n)
          = register_seq post (register n' c' reg) (fullpath_of m n)"
    by (simp add: p register_seq_Cons)
  also have "\<dots> = register n' c' reg (fullpath_of m n)"
    using Cons.IH Cons.prems by simp
  also have "\<dots> = reg (fullpath_of m n)"
    using register_other_key [OF k1 k2] .
  finally show ?case .
qed

lemma register_seq_simple_inv:
  assumes "\<forall>(n', c') \<in> set regs. dotfree n'" and "dotfree n"
  shows "simple_inv regs n (register_seq regs Map.empty)"
  using assms(1)
proof (induction regs rule: rev_induct)
  case Nil
  then show ?case by (simp add: simple_inv_def register_seq_Nil)
next
  case (snoc p regs)
  obtain n' c' where p: "p = (n', c')" by (cases p)
  let ?r = "register_seq regs Map.empty"
  from snoc have IH: "simple_inv regs n ?r" by simp
  have step: "register_seq (regs @ [p]) Map.empty = register n' c' ?r"
    by (simp add: p register_seq_snoc)
  show ?case
  proof (cases "n' = n")
    case True
    have key: "register n' c' ?r n =
       (case ?r n of None \<Rightarrow> Some [c']
        | Some entries \<Rightarrow>
            if cls_module c' \<in> cls_module ` set entries then Some entries
            else Some (entries @ [c']))"
      using register_simple_key [of n c' ?r] True by simp
    have sets: "{cls_module c | c. (n, c) \<in> set (regs @ [p])}
                  = insert (cls_module c') {cls_module c | c. (n, c) \<in> set regs}"
      using True p by auto
    show ?thesis
    proof (cases "?r n")
      case None
      with IH have "{cls_module c | c. (n, c) \<in> set regs} = {}"
        by (auto simp: simple_inv_def)
      with None key sets show ?thesis
        by (simp add: step simple_inv_def)
    next
      case (Some entries)
      with IH have e: "cls_module ` set entries = {cls_module c | c. (n, c) \<in> set regs}"
        and d: "distinct (map cls_module entries)"
        by (auto simp: simple_inv_def)
      show ?thesis
      proof (cases "cls_module c' \<in> cls_module ` set entries")
        case True
        with Some key have "register n' c' ?r n = Some entries" by simp
        moreover have "insert (cls_module c') (cls_module ` set entries) = cls_module ` set entries"
          using True by blast
        ultimately show ?thesis
          using e d sets by (simp add: step simple_inv_def)
      next
        case False
        with Some key have "register n' c' ?r n = Some (entries @ [c'])" by simp
        then show ?thesis
          using e d sets False by (simp add: step simple_inv_def)
      qed
    qed
  next
    case False
    have k2: "n \<noteq> fullpath_of (cls_module c') n'"
      using assms(2) fullpath_not_dotfree [of "cls_module c'" n'] by auto
    have same: "register n' c' ?r n = ?r n"
      using register_other_key [of n n' c' ?r] False k2 by simp
    have sets: "{cls_module c | c. (n, c) \<in> set (regs @ [p])}
                  = {cls_module c | c. (n, c) \<in> set regs}"
      using False p by auto
    have none: "(\<forall>c. (n, c) \<notin> set (regs @ [p])) = (\<forall>c. (n, c) \<notin> set regs)"
      using False p by auto
    show ?thesis
      unfolding simple_inv_def step same sets none
      using IH unfolding simple_inv_def .
  qed
qed

lemma two_modules_long:
  assumes "a \<in> cls_module ` set cs" and "b \<in> cls_module ` set cs" and "a \<noteq> b"
  shows "length cs > 1"
proof (cases cs)
  case Nil
  with assms show ?thesis by simp
next
  case (Cons x xs)
  show ?thesis
  proof (cases xs)
    case Nil
    with Cons assms show ?thesis by auto
  next
    case (Cons y ys)
    with \<open>cs = x # xs\<close> show ?thesis by simp
  qed
qed

lemma register_seq_untouched:
  assumes "\<forall>(n', c') \<in> set regs. n' \<noteq> k \<and> fullpath_of (cls_module c') n' \<noteq> k"
  shows "register_seq regs reg k = reg k"
  using assms
proof (induction regs arbitrary: reg)
  case Nil
  then show ?case by (simp add: register_seq_Nil)
next
  case (Cons p regs)
  obtain n' c' where p: "p = (n', c')" by (cases p)
  from Cons.prems p have k1: "k \<noteq> n'" and k2: "k \<noteq> fullpath_of (cls_module c') n'"
    by auto
  have "register_seq (p # regs) reg k = register_seq regs (register n' c' reg) k"
    by (simp add: p register_seq_Cons)
  also have "\<dots> = register n' c' reg k"
    using Cons.IH Cons.prems by simp
  also have "\<dots> = reg k"
    using register_other_key [OF k1 k2] .
  finally show ?case .
qed

text \<open>
  Claim C4, as the code has it. Resolving a name that the registry does not hold (after a
  run of registrations: a name that is neither the simple nor the fully-qualified name of
  any registered class) fails with the \<open>APIException\<close> of detail
  \<open>Contact admin for support\<close>. After any run of registrations of classes (named by
  identifiers) into an empty registry: a simple name registered from two different
  modules fails with that same \<open>APIException\<close>, and the fully-qualified name of a
  registered class resolves to the class most recently registered under that module and
  name.
\<close>

theorem get_class_resolution:
  assumes "\<forall>(n', c') \<in> set regs. dotfree n'"
  shows "(reg0 name = None
            \<longrightarrow> get_class name reg0 = Inl (APIException ''Contact admin for support''))
       \<and> ((\<forall>(n', c') \<in> set regs. n' \<noteq> name \<and> fullpath_of (cls_module c') n' \<noteq> name)
            \<longrightarrow> get_class name (register_seq regs Map.empty)
                  = Inl (APIException ''Contact admin for support''))
       \<and> ((n, c1) \<in> set regs \<and> (n, c2) \<in> set regs \<and> cls_module c1 \<noteq> cls_module c2
            \<longrightarrow> get_class n (register_seq regs Map.empty)
                  = Inl (APIException ''Contact admin for support''))
       \<and> (regs = pre @ (n, c) # post
            \<and> (\<forall>(n', c') \<in> set post. n' = n \<longrightarrow> cls_module c' \<noteq> cls_module c)
            \<longrightarrow> get_class (fullpath_of (cls_module c) n) (register_seq regs Map.empty) = Inr c)"
proof (intro conjI impI)
  assume "reg0 name = None"
  then show "get_class name reg0 = Inl (APIException ''Contact admin for support'')"
    by (simp add: get_class_def)
next
  assume "\<forall>(n', c') \<in> set regs. n' \<noteq> name \<and> fullpath_of (cls_module c') n' \<noteq> name"
  then have "register_seq regs Map.empty name = None"
    using register_seq_untouched [of regs name Map.empty] by simp
  then show "get_class name (register_seq regs Map.empty)
               = Inl (APIException ''Contact admin for support'')"
    by (simp add: get_class_def)
next
  assume h: "(n, c1) \<in> set regs \<and> (n, c2) \<in> set regs \<and> cls_module c1 \<noteq> cls_module c2"
  with assms have df: "dotfree n" by auto
  let ?r = "register_seq regs Map.empty"
  have inv: "simple_inv regs n ?r"
    using register_seq_simple_inv [OF assms df] .
  from h inv obtain cs where cs: "?r n = Some cs"
    and mods: "cls_module ` set cs = {cls_module c | c. (n, c) \<in> set regs}"
    by (cases "?r n") (auto simp: simple_inv_def)
  from h mods have "cls_module c1 \<in> cls_module ` set cs" "cls_module c2 \<in> cls_module ` set cs"
    by blast+
  with h have "length cs > 1"
    using two_modules_long by blast
  with cs show "get_class n ?r = Inl (APIException ''Contact admin for support'')"
    by (simp add: get_class_def)
next
  assume h: "regs = pre @ (n, c) # post
      \<and> (\<forall>(n', c') \<in> set post. n' = n \<longrightarrow> cls_module c' \<noteq> cls_module c)"
  with assms have df: "dotfree n" by auto
  from h assms have post: "\<forall>(n', c') \<in> set post. dotfree n' \<and> (n' = n \<longrightarrow> cls_module c' \<noteq> cls_module c)"
    by auto
  let ?fp = "fullpath_of (cls_module c) n"
  have "register_seq regs Map.empty
          = register_seq post (register n c (register_seq pre Map.empty))"
    using h by (simp add: register_seq_append register_seq_Cons)
  then have "register_seq regs Map.empty ?fp = register n c (register_seq pre Map.empty) ?fp"
    using register_seq_keeps_fullpath [OF post df] by simp
  then have "register_seq regs Map.empty ?fp = Some [c]"
    by (simp add: register_fullpath)
  then show "get_class ?fp (register_seq regs Map.empty) = Inr c"
    by (simp add: get_class_def)
qed

theorem get_class_resolution_witness:
  "get_class ''Ghost'' Map.empty = Inl (APIException ''Contact admin for support'')
   \<and> get_class ''Ghost''
        (register_seq [(''User'', \<lparr>cls_module = ''app.a'', cls_ident = 1\<rparr>),
                       (''User'', \<lparr>cls_module = ''app.b'', cls_ident = 2\<rparr>)] Map.empty)
       = Inl (APIException ''Contact admin for support'')
   \<and> get_class ''User''
        (register_seq [(''User'', \<lparr>cls_module = ''app.a'', cls_ident = 1\<rparr>),
                       (''User'', \<lparr>cls_module = ''app.b'', cls_ident = 2\<rparr>)] Map.empty)
       = Inl (APIException ''Contact admin for support'')
   \<and> get_class ''app.a.User''
        (register_seq [(''User'', \<lparr>cls_module = ''app.a'', cls_ident = 1\<rparr>),
                       (''User'', \<lparr>cls_module = ''app.b'', cls_ident = 2\<rparr>)] Map.empty)
       = Inr \<lparr>cls_module = ''app.a'', cls_ident = 1\<rparr>"
  using get_class_resolution
    [where regs = "[(''User'', \<lparr>cls_module = ''app.a'', cls_ident = 1\<rparr>),
                    (''User'', \<lparr>cls_module = ''app.b'', cls_ident = 2\<rparr>)]"
       and ?reg0.0 = Map.empty and name = "''Ghost''" and n = "''User''"
       and ?c1.0 = "\<lparr>cls_module = ''app.a'', cls_ident = 1\<rparr>"
       and ?c2.0 = "\<lparr>cls_module = ''app.b'', cls_ident = 2\<rparr>"
       and pre = "[]" and c = "\<lparr>cls_module = ''app.a'', cls_ident = 1\<rparr>"
       and post = "[(''User'', \<lparr>cls_module = ''app.b'', cls_ident = 2\<rparr>)]"]
  by (simp add: dotfree_def fullpath_of_def)

text \<open>
  The failure for a name nobody registered and the failure for a simple name registered
  from two modules are one and the same exception: the caller cannot tell a missing name
  from an ambiguous one by the kind of the failure.
\<close>

theorem get_class_failures_coincide:
  "get_class ''Ghost'' Map.empty
     = get_class ''User''
        (register ''User'' \<lparr>cls_module = ''app.b'', cls_ident = 2\<rparr>
          (register ''User'' \<lparr>cls_module = ''app.a'', cls_ident = 1\<rparr> Map.empty))
   \<and> get_class ''Ghost'' Map.empty = Inl (APIException ''Contact admin for support'')"
  by (simp add: get_class_def register_def Let_def fullpath_of_def)

text \<open>
  Claim C10. Two different classes of one module registered under one simple name that
  the registry did not hold: the simple name keeps resolving to the first class, the
  fully-qualified name resolves to the second, so the two lookups disagree.
\<close>

theorem register_same_module_lookups_disagree:
  assumes "reg n = None" and "cls_module c1 = cls_module c2" and "c1 \<noteq> c2"
  shows "get_class n (register n c2 (register n c1 reg)) = Inr c1
       \<and> get_class (fullpath_of (cls_module c2) n) (register n c2 (register n c1 reg)) = Inr c2
       \<and> get_class n (register n c2 (register n c1 reg))
            \<noteq> get_class (fullpath_of (cls_module c2) n) (register n c2 (register n c1 reg))"
proof -
  let ?r1 = "register n c1 reg"
  have r1: "?r1 n = Some [c1]"
    using assms(1) by (simp add: register_simple_key)
  have "register n c2 ?r1 n = Some [c1]"
    using r1 assms(2) by (simp add: register_simple_key)
  then have a: "get_class n (register n c2 ?r1) = Inr c1"
    by (simp add: get_class_def)
  have b: "get_class (fullpath_of (cls_module c2) n) (register n c2 ?r1) = Inr c2"
    by (simp add: get_class_def register_fullpath)
  from a b assms(3) show ?thesis by simp
qed

theorem register_same_module_lookups_disagree_witness:
  "get_class ''User''
      (register ''User'' \<lparr>cls_module = ''app'', cls_ident = 2\<rparr>
        (register ''User'' \<lparr>cls_module = ''app'', cls_ident = 1\<rparr> Map.empty))
     = Inr \<lparr>cls_module = ''app'', cls_ident = 1\<rparr>
   \<and> get_class ''app.User''
      (register ''User'' \<lparr>cls_module = ''app'', cls_ident = 2\<rparr>
        (register ''User'' \<lparr>cls_module = ''app'', cls_ident = 1\<rparr> Map.empty))
     = Inr \<lparr>cls_module = ''app'', cls_ident = 2\<rparr>"
  using register_same_module_lookups_disagree
    [of Map.empty "''User''" "\<lparr>cls_module = ''app'', cls_ident = 1\<rparr>"
        "\<lparr>cls_module = ''app'', cls_ident = 2\<rparr>"]
  by (simp add: fullpath_of_def)

section \<open>Field deserialization\<close>

lemma And_call_result: "And_call vs val nm = Inr r \<Longrightarrow> r = val"
  by (induction vs) (auto split: sum.splits if_splits)

lemma And_call_pass:
  assumes "\<forall>x \<in> set vs. \<exists>r. call x val nm = Inr r \<and> (is_Validator x \<or> r \<noteq> PBool False)"
  shows "And_call vs val nm = Inr val"
  using assms by (induction vs) (auto split: sum.splits)

lemma deserialize_required_no_default:
  assumes "required f" and "load_default f = Value Missing" and "is_missing v"
  shows "deserialize f v = Inl (ParseError (''Field '' @ str_name (fname f) @ '' is required''))"
  using assms by (simp add: deserialize.simps validate_missing_def truthy_default_def)

lemma deserialize_truthy_default:
  assumes "load_default f = Value d" and "truthy_val d" and "is_missing v"
  shows "deserialize f v = Inr d"
  using assms by (simp add: deserialize.simps validate_missing_def truthy_default_def)

text \<open>
  Claim C1. A required field with no default fails on a missing value with the required
  failure (\<open>deserialize_required_no_default\<close>), and a default whose truth value is true
  is returned instead (\<open>deserialize_truthy_default\<close>). A default whose truth value is
  false does not help: a required field declared with the default \<open>0\<close> still fails on
  the missing sentinel, where the claim has it return \<open>0\<close>.
\<close>

theorem deserialize_required_falsy_default:
  "deserialize (Field KField (Value (PInt 0)) [] True (Some ''age'')) Missing
     = Inl (ParseError ''Field age is required'')
   \<and> deserialize (Field KField (Value (PInt 0)) [] False (Some ''age'')) Missing
     = Inr (PInt 0)"
  by (simp add: deserialize.simps validate_missing_def is_missing_def truthy_default_def
        str_name_def)

lemma And_call_skip_passing:
  assumes "\<forall>y \<in> set pre. \<exists>r. call y val nm = Inr r \<and> (is_Validator y \<or> r \<noteq> PBool False)"
  shows "And_call (pre @ rest) val nm = And_call rest val nm"
  using assms by (induction pre) (auto split: sum.splits)

lemma And_call_first_raise:
  assumes "\<forall>y \<in> set pre. \<exists>r. call y val nm = Inr r \<and> (is_Validator y \<or> r \<noteq> PBool False)"
    and "call x val nm = Inl e"
  shows "And_call (pre @ x # post) val nm = Inl e"
  using And_call_skip_passing [OF assms(1), of "x # post"] assms(2) by simp

lemma And_call_first_False:
  assumes "\<forall>y \<in> set pre. \<exists>r. call y val nm = Inr r \<and> (is_Validator y \<or> r \<noteq> PBool False)"
    and "\<not> is_Validator x" and "call x val nm = Inr (PBool False)"
  shows "And_call (pre @ x # post) val nm = Inl (ValidationError [''Invalid arguments''])"
  using And_call_skip_passing [OF assms(1), of "x # post"] assms(2,3) by simp

text \<open>
  Claim C7, as the code has it. For a present value that the kind coerces to \<open>output\<close>,
  \<open>deserialize\<close> runs \<open>output\<close> through the validators in their order. When each
  validator returns normally and no validator outside the class \<open>Validator\<close> returns
  \<open>False\<close>, it returns \<open>output\<close> itself, whatever the validators returned. The first
  validator that raises makes it fail with that failure, and the first plain callable
  that returns \<open>False\<close> makes it fail with the \<open>ValidationError\<close> of the chain.
\<close>

theorem deserialize_returns_coerced:
  assumes "\<not> is_missing v" and "deserialize_kind f v = Inr output"
  shows "(\<forall>r. deserialize f v = Inr r \<longrightarrow> r = output)
       \<and> ((\<forall>x \<in> set (validators f). \<exists>r. call x output (fname f) = Inr r
                \<and> (is_Validator x \<or> r \<noteq> PBool False))
            \<longrightarrow> deserialize f v = Inr output)
       \<and> (\<forall>pre x post e.
             validators f = pre @ x # post
             \<and> (\<forall>y \<in> set pre. \<exists>r. call y output (fname f) = Inr r
                    \<and> (is_Validator y \<or> r \<noteq> PBool False))
             \<and> call x output (fname f) = Inl e
            \<longrightarrow> deserialize f v = Inl e)
       \<and> (\<forall>pre x post.
             validators f = pre @ x # post
             \<and> (\<forall>y \<in> set pre. \<exists>r. call y output (fname f) = Inr r
                    \<and> (is_Validator y \<or> r \<noteq> PBool False))
             \<and> \<not> is_Validator x \<and> call x output (fname f) = Inr (PBool False)
            \<longrightarrow> deserialize f v = Inl (ValidationError [''Invalid arguments'']))"
proof -
  have vm: "validate_missing f v = Inr ()"
    using assms(1) by (simp add: validate_missing_def)
  have d: "deserialize f v =
      (case validate_field f output (fname f) of Inl e \<Rightarrow> Inl e | Inr _ \<Rightarrow> Inr output)"
    using assms vm by (simp add: deserialize.simps)
  have a: "\<forall>r. deserialize f v = Inr r \<longrightarrow> r = output"
    unfolding d by (auto split: sum.splits)
  have b: "deserialize f v = Inr output"
    if "\<forall>x \<in> set (validators f). \<exists>r. call x output (fname f) = Inr r
                \<and> (is_Validator x \<or> r \<noteq> PBool False)"
    unfolding d using And_call_pass [OF that] by (simp add: validate_field_def)
  have c: "deserialize f v = Inl e"
    if "validators f = pre @ x # post"
      and "\<forall>y \<in> set pre. \<exists>r. call y output (fname f) = Inr r
                \<and> (is_Validator y \<or> r \<noteq> PBool False)"
      and "call x output (fname f) = Inl e"
    for pre x post e
    unfolding d using And_call_first_raise [OF that(2,3), of post] that(1)
    by (simp add: validate_field_def)
  have e: "deserialize f v = Inl (ValidationError [''Invalid arguments''])"
    if "validators f = pre @ x # post"
      and "\<forall>y \<in> set pre. \<exists>r. call y output (fname f) = Inr r
                \<and> (is_Validator y \<or> r \<noteq> PBool False)"
      and "\<not> is_Validator x" and "call x output (fname f) = Inr (PBool False)"
    for pre x post
    unfolding d using And_call_first_False [OF that(2,3,4), of post] that(1)
    by (simp add: validate_field_def)
  from a b c e show ?thesis by blast
qed

text \<open>
  A string field with upper-casing and two validators, a plain callable and a
  \<open>Validator\<close>. When both pass, the upper-cased text comes back; when the second
  raises, that failure comes back; when the first returns \<open>False\<close>, the chain's own
  \<open>ValidationError\<close> comes back and the second is not asked.
\<close>

theorem deserialize_returns_coerced_witness:
  "deserialize (Field (KString True) (Value Missing)
      [\<lparr>is_Validator = False, call = (\<lambda>v nm. Inr (PBool True))\<rparr>,
       \<lparr>is_Validator = True, call = (\<lambda>v nm. Inr v)\<rparr>] True (Some ''code''))
      (PStr ''ab'') = Inr (PStr ''AB'')
   \<and> deserialize (Field (KString True) (Value Missing)
      [\<lparr>is_Validator = False, call = (\<lambda>v nm. Inr (PBool True))\<rparr>,
       \<lparr>is_Validator = True, call = (\<lambda>v nm. Inl (ValidationError [''too short'']))\<rparr>]
      True (Some ''code''))
      (PStr ''ab'') = Inl (ValidationError [''too short''])
   \<and> deserialize (Field (KString True) (Value Missing)
      [\<lparr>is_Validator = False, call = (\<lambda>v nm. Inr (PBool False))\<rparr>,
       \<lparr>is_Validator = True, call = (\<lambda>v nm. Inl (ValidationError [''too short'']))\<rparr>]
      True (Some ''code''))
      (PStr ''ab'') = Inl (ValidationError [''Invalid arguments''])"
proof -
  let ?ok = "\<lparr>is_Validator = False, call = (\<lambda>v nm. Inr (PBool True))\<rparr> :: validator"
  let ?same = "\<lparr>is_Validator = True, call = (\<lambda>v nm. Inr v)\<rparr> :: validator"
  let ?raising = "\<lparr>is_Validator = True,
                    call = (\<lambda>v nm. Inl (ValidationError [''too short'']))\<rparr> :: validator"
  let ?no = "\<lparr>is_Validator = False, call = (\<lambda>v nm. Inr (PBool False))\<rparr> :: validator"
  let ?fa = "Field (KString True) (Value Missing) [?ok, ?same] True (Some ''code'')"
  let ?fb = "Field (KString True) (Value Missing) [?ok, ?raising] True (Some ''code'')"
  let ?fc = "Field (KString True) (Value Missing) [?no, ?raising] True (Some ''code'')"
  have h1: "\<not> is_missing (PStr ''ab'')"
    by (simp add: is_missing_def)
  have ka: "deserialize_kind ?fa (PStr ''ab'') = Inr (PStr ''AB'')"
    and kb: "deserialize_kind ?fb (PStr ''ab'') = Inr (PStr ''AB'')"
    and kc: "deserialize_kind ?fc (PStr ''ab'') = Inr (PStr ''AB'')"
    by (simp_all add: String_deserialize_def upper_def upper_char_def)
  have pa: "\<forall>x \<in> set (validators ?fa). \<exists>r. call x (PStr ''AB'') (fname ?fa) = Inr r
                \<and> (is_Validator x \<or> r \<noteq> PBool False)"
    by simp
  have a: "deserialize ?fa (PStr ''ab'') = Inr (PStr ''AB'')"
    using deserialize_returns_coerced [OF h1 ka] pa by blast
  have sb: "validators ?fb = [?ok] @ ?raising # []
      \<and> (\<forall>y \<in> set [?ok]. \<exists>r. call y (PStr ''AB'') (fname ?fb) = Inr r
             \<and> (is_Validator y \<or> r \<noteq> PBool False))
      \<and> call ?raising (PStr ''AB'') (fname ?fb) = Inl (ValidationError [''too short''])"
    by simp
  have b: "deserialize ?fb (PStr ''ab'') = Inl (ValidationError [''too short''])"
    using deserialize_returns_coerced [OF h1 kb] sb by blast
  have sc: "validators ?fc = [] @ ?no # [?raising]
      \<and> (\<forall>y \<in> set []. \<exists>r. call y (PStr ''AB'') (fname ?fc) = Inr r
             \<and> (is_Validator y \<or> r \<noteq> PBool False))
      \<and> \<not> is_Validator ?no \<and> call ?no (PStr ''AB'') (fname ?fc) = Inr (PBool False)"
    by simp
  have c: "deserialize ?fc (PStr ''ab'') = Inl (ValidationError [''Invalid arguments''])"
    using deserialize_returns_coerced [OF h1 kc] sc by blast
  from a b c show ?thesis by simp
qed

text \<open>
  A validator that returns twice its argument: the field still returns the coerced value,
  not the value the validator returned.
\<close>

theorem deserialize_ignores_validator_result:
  "call \<lparr>is_Validator = True, call = (\<lambda>v nm. case v of PInt i \<Rightarrow> Inr (PInt (2 * i)) | _ \<Rightarrow> Inr v)\<rparr>
        (PInt 21) (Some ''n'') = Inr (PInt 42)
   \<and> deserialize (Field KField (Value Missing)
        [\<lparr>is_Validator = True, call = (\<lambda>v nm. case v of PInt i \<Rightarrow> Inr (PInt (2 * i)) | _ \<Rightarrow> Inr v)\<rparr>]
        False (Some ''n'')) (PInt 21) = Inr (PInt 21)"
  by (simp add: deserialize.simps validate_missing_def is_missing_def validate_field_def)

text \<open>
  Claim C8, as the code has it. \<open>Boolean._deserialize\<close> on a hashable value other than
  \<open>None\<close>: text is upper-cased first; the strings \<open>T\<close>, \<open>TRUE\<close>, \<open>Y\<close>,
  \<open>YES\<close>, \<open>1\<close> and the numbers equal to one give \<open>True\<close>; the strings \<open>F\<close>,
  \<open>FALSE\<close>, \<open>N\<close>, \<open>NO\<close>, \<open>0\<close> and the numbers equal to zero give \<open>False\<close>;
  every other such value fails with the validation failure of the field.
\<close>

theorem Boolean_deserialize_cases:
  assumes "v \<noteq> PNone" and "hashable v"
  shows "Boolean_deserialize nm v =
     (if (\<exists>s. v = PStr s \<and> upper s \<in> {''T'', ''TRUE'', ''Y'', ''YES'', ''1''})
          \<or> v \<in> {PInt 1, PBool True, PFloat 1}
      then Inr (PBool True)
      else if (\<exists>s. v = PStr s \<and> upper s \<in> {''F'', ''FALSE'', ''N'', ''NO'', ''0''})
          \<or> v \<in> {PInt 0, PBool False, PFloat 0}
      then Inr (PBool False)
      else Inl (ValidationError [''Field '' @ str_name nm @ '' must be a boolean value'']))"
  using assms
  by (cases v) (auto simp: Boolean_deserialize_def py_in_def py_eq_def truthy_set_def falsy_set_def)

theorem Boolean_deserialize_cases_witness:
"Boolean_deserialize (Some ''flag'') (PStr ''maybe'')
     = Inl (ValidationError [''Field flag must be a boolean value''])
  \<and> Boolean_deserialize (Some ''flag'') (PStr ''yes'') = Inr (PBool True)"
  using Boolean_deserialize_cases [of "PStr ''maybe''" "Some ''flag''"]
        Boolean_deserialize_cases [of "PStr ''yes''" "Some ''flag''"]
  by (simp add: upper_def upper_char_def str_name_def)

text \<open>
  \<open>None\<close> is neither in the truthy nor in the falsy set and does not fail:
  \<open>_deserialize\<close> returns it, and through \<open>deserialize\<close> it (like the empty string)
  counts as missing and gives the default.
\<close>

theorem Boolean_deserialize_None:
"Boolean_deserialize (Some ''flag'') PNone = Inr PNone
  \<and> deserialize (Field KBoolean (Value Missing) [] False (Some ''flag'')) PNone = Inr Missing
  \<and> deserialize (Field KBoolean (Value Missing) [] False (Some ''flag'')) (PStr '''') = Inr Missing"
  by (simp add: Boolean_deserialize_def deserialize.simps validate_missing_def is_missing_def)

section \<open>List fields\<close>

lemma list_loop_prefix:
  assumes "\<forall>x \<in> set pre. \<exists>y. deserialize inner x = Inr y"
    and "deserialize inner each = Inl e"
  shows "list_loop inner nm idx (pre @ each # post) result
           = Inl (reraise_indexed nm (idx + length pre) e)"
  using assms(1)
proof (induction pre arbitrary: idx result)
  case Nil
  then show ?case using assms(2) by simp
next
  case (Cons x pre)
  then obtain y where y: "deserialize inner x = Inr y" by auto
  have "list_loop inner nm idx ((x # pre) @ each # post) result
          = list_loop inner nm (idx + 1) (pre @ each # post) (result @ [y])"
    using y by simp
  also have "\<dots> = Inl (reraise_indexed nm (idx + 1 + length pre) e)"
    using Cons by simp
  finally show ?case by simp
qed

lemma list_field_first_failure:
  assumes "i < length xs"
    and "\<forall>j < i. \<exists>y. deserialize inner (xs ! j) = Inr y"
    and "deserialize inner (xs ! i) = Inl e"
  shows "deserialize (Field (KList inner) d vs r nm) (PList (take i xs @ xs ! i # ys))
           = Inl (reraise_indexed nm i e)"
proof -
  let ?f = "Field (KList inner) d vs r nm"
  have pre: "\<forall>x \<in> set (take i xs). \<exists>y. deserialize inner x = Inr y"
    using assms(1,2) by (auto simp: in_set_conv_nth)
  have len: "length (take i xs) = i"
    using assms(1) by simp
  have "list_loop inner nm 0 (take i xs @ xs ! i # ys) [] = Inl (reraise_indexed nm i e)"
    using list_loop_prefix [OF pre assms(3), of nm 0 ys "[]"] len by simp
  then show ?thesis
    by (simp add: deserialize.simps validate_missing_def is_missing_def is_collection_def
          is_iterable_but_not_string_def is_Mapping_def)
qed

text \<open>
  Claim C5, as the code has it. Let the element at index \<open>i\<close> (counted from zero) be
  the first one the inner field fails on. When that failure is a \<open>ValidationError\<close>
  with at least one message, the list field fails with a \<open>ValidationError\<close> of one
  message: the field's name, the position \<open>i + 1\<close> in brackets and the first message of
  the inner failure; further messages of the inner failure are dropped. A failure of the
  inner field that is not a \<open>ValidationError\<close> passes through as it is. In both cases
  the elements after index \<open>i\<close> play no part: replacing them by any others gives the
  same result.
\<close>

theorem List_deserialize_first_failure:
  assumes "i < length xs"
    and "\<forall>j < i. \<exists>y. deserialize inner (xs ! j) = Inr y"
    and "deserialize inner (xs ! i) = Inl e"
  shows "(\<forall>first others. e = ValidationError (first # others) \<longrightarrow>
            deserialize (Field (KList inner) d vs r nm) (PList xs)
              = Inl (ValidationError
                  [''Field '' @ str_name nm @ ''['' @ str_nat (i + 1) @ '']: '' @ first]))
       \<and> ((\<forall>detail. e \<noteq> ValidationError detail) \<longrightarrow>
            deserialize (Field (KList inner) d vs r nm) (PList xs) = Inl e)
       \<and> (\<forall>ys. deserialize (Field (KList inner) d vs r nm) (PList (take i xs @ xs ! i # ys))
              = deserialize (Field (KList inner) d vs r nm) (PList xs))"
proof -
  have xs: "xs = take i xs @ xs ! i # drop (Suc i) xs"
    using assms(1) by (simp add: id_take_nth_drop)
  have all: "deserialize (Field (KList inner) d vs r nm) (PList (take i xs @ xs ! i # ys))
               = Inl (reraise_indexed nm i e)" for ys
    using list_field_first_failure [OF assms] .
  have whole: "deserialize (Field (KList inner) d vs r nm) (PList xs) = Inl (reraise_indexed nm i e)"
    using all [of "drop (Suc i) xs"] xs by simp
  have a: "reraise_indexed nm i (ValidationError (first # others))
      = ValidationError [''Field '' @ str_name nm @ ''['' @ str_nat (i + 1) @ '']: '' @ first]"
    for first others
    by (simp add: reraise_indexed_def)
  have b: "reraise_indexed nm i e = e" if "\<forall>detail. e \<noteq> ValidationError detail"
    using that by (cases e) (simp_all add: reraise_indexed_def)
  show ?thesis
    using whole all a b by simp
qed

text \<open>
  The list \<open>["ok", "ok", 123]\<close> into a list of strings named \<open>tags\<close>; and a list of
  strings whose validator raises two messages at once on a short text (as
  \<open>validate.Password\<close> does): only the first of the two is kept.
\<close>

theorem List_deserialize_first_failure_witness:
  "deserialize (Field (KList (Field (KString False) (Value Missing) [] False (Some ''tags'')))
                  (Value Missing) [] False (Some ''tags''))
     (PList [PStr ''ok'', PStr ''ok'', PInt 123])
   = Inl (ValidationError [''Field tags[3]: Except field tags is a string''])
   \<and> deserialize
       (Field (KList (Field (KString False) (Value Missing)
                       [\<lparr>is_Validator = True,
                         call = (\<lambda>v nm. case v of
                                   PStr s \<Rightarrow>
                                     if length s < 8
                                     then Inl (ValidationError
                                            [''Field '' @ str_name nm @ '' is too short'',
                                             ''Field '' @ str_name nm @ '' must contain number''])
                                     else Inr v
                                 | _ \<Rightarrow> Inr v)\<rparr>]
                       False (Some ''tags'')))
              (Value Missing) [] False (Some ''tags''))
       (PList [PStr ''abc''])
     = Inl (ValidationError [''Field tags[1]: Field tags is too short''])"
proof -
  let ?inner = "Field (KString False) (Value Missing) [] False (Some ''tags'')"
  let ?xs = "[PStr ''ok'', PStr ''ok'', PInt 123]"
  have h1: "2 < length ?xs" by simp
  have ok: "deserialize ?inner (PStr ''ok'') = Inr (PStr ''ok'')"
    by (simp add: deserialize.simps validate_missing_def is_missing_def validate_field_def
          String_deserialize_def)
  have h2: "\<forall>j < 2. \<exists>y. deserialize ?inner (?xs ! j) = Inr y"
    using ok by (simp add: less_Suc_eq numeral_2_eq_2)
  have h3: "deserialize ?inner (?xs ! 2) = Inl (ValidationError [''Except field tags is a string''])"
    by (simp add: deserialize.simps validate_missing_def is_missing_def
          String_deserialize_def str_name_def)
  have s3: "str_nat 3 = ''3''"
    by (simp add: str_nat.simps digit_char_def)
  have a: "deserialize (Field (KList ?inner) (Value Missing) [] False (Some ''tags'')) (PList ?xs)
             = Inl (ValidationError [''Field tags[3]: Except field tags is a string''])"
    using List_deserialize_first_failure
      [OF h1 h2 h3, of "Value Missing" "[]" False "Some ''tags''"]
    by (simp add: s3 str_name_def)
  let ?pw = "\<lparr>is_Validator = True,
               call = (\<lambda>v nm. case v of
                         PStr s \<Rightarrow>
                           if length s < 8
                           then Inl (ValidationError
                                  [''Field '' @ str_name nm @ '' is too short'',
                                   ''Field '' @ str_name nm @ '' must contain number''])
                           else Inr v
                       | _ \<Rightarrow> Inr v)\<rparr> :: validator"
  let ?inner2 = "Field (KString False) (Value Missing) [?pw] False (Some ''tags'')"
  let ?ys = "[PStr ''abc'']"
  have g1: "0 < length ?ys" by simp
  have g2: "\<forall>j < 0. \<exists>y. deserialize ?inner2 (?ys ! j) = Inr y" by simp
  have g3: "deserialize ?inner2 (?ys ! 0)
              = Inl (ValidationError [''Field tags is too short'', ''Field tags must contain number''])"
    by (simp add: deserialize.simps validate_missing_def is_missing_def validate_field_def
          String_deserialize_def str_name_def)
  have s1: "str_nat (Suc 0) = ''1''"
    by (simp add: str_nat.simps digit_char_def)
  have b: "deserialize (Field (KList ?inner2) (Value Missing) [] False (Some ''tags'')) (PList ?ys)
             = Inl (ValidationError [''Field tags[1]: Field tags is too short''])"
    using List_deserialize_first_failure
      [OF g1 g2 g3, of "Value Missing" "[]" False "Some ''tags''"]
    by (simp add: s1 str_name_def)
  from a b show ?thesis by simp
qed

text \<open>
  A list of required strings whose second element is \<open>None\<close>: the failure of the
  element is a \<open>ParseError\<close>, which the loop's handler does not catch, so the message
  names no position.
\<close>

theorem List_deserialize_required_element:
  "deserialize (Field (KList (Field (KString False) (Value Missing) [] True (Some ''tags'')))
                  (Value Missing) [] False (Some ''tags''))
     (PList [PStr ''ok'', PNone])
   = Inl (ParseError ''Field tags is required'')"
  by (simp add: deserialize.simps validate_missing_def is_missing_def validate_field_def
        String_deserialize_def is_collection_def is_iterable_but_not_string_def is_Mapping_def
        truthy_default_def reraise_indexed_def str_name_def)

section \<open>The schema walk\<close>

lemma fields_loop_append:
  "fields_loop (xs @ ys) data ret_d =
     (case fields_loop xs data ret_d of
        Inl e \<Rightarrow> Inl e
      | Inr ret_d' \<Rightarrow> fields_loop ys data ret_d')"
proof (induction xs arbitrary: ret_d)
  case Nil
  then show ?case by simp
next
  case (Cons p xs)
  obtain n f where p: "p = (n, f)" by (cases p)
  show ?case
    by (simp add: p Cons split: sum.splits)
qed

text \<open>
  Claim C2. \<open>load\<close> on a single mapping walks \<open>load_fields\<close> in declaration order.
  When the fields declared before \<open>f\<close> all load from the mapping and \<open>f\<close> fails on
  its value, the load fails with the failure of \<open>f\<close>, whatever fields are declared
  after \<open>f\<close> and whatever the mapping holds for them: they are not looked at.
\<close>

theorem load_first_failing_field:
  assumes "load (Schema False pre) (PDict data) = Inr out"
    and "deserialize f (data_get data n) = Inl e"
  shows "load (Schema False (pre @ (n, f) # post)) (PDict data) = Inl e"
proof -
  from assms(1) obtain ret_d where pre: "fields_loop pre data [] = Inr ret_d"
    by (auto split: sum.splits)
  have "fields_loop (pre @ (n, f) # post) data [] = Inl e"
    unfolding fields_loop_append pre using assms(2) by simp
  then show ?thesis by simp
qed

theorem load_first_failing_field_witness:
  "load (Schema False [(''name'', Field (KString False) (Value Missing) [] True (Some ''name'')),
                       (''age'', Field KBoolean (Value Missing) [] True (Some ''age'')),
                       (''tags'', Field (KList (Field (KString False) (Value Missing) [] False (Some ''tags'')))
                                   (Value Missing) [] True (Some ''tags''))])
        (PDict [(''tags'', PInt 3), (''name'', PStr ''x''), (''age'', PStr ''maybe'')])
   = Inl (ValidationError [''Field age must be a boolean value''])"
proof -
  let ?pre = "[(''name'', Field (KString False) (Value Missing) [] True (Some ''name''))]"
  let ?data = "[(''tags'', PInt 3), (''name'', PStr ''x''), (''age'', PStr ''maybe'')]"
  have h1: "load (Schema False ?pre) (PDict ?data) = Inr (PDict [(''name'', PStr ''x'')])"
    by (simp add: deserialize.simps validate_missing_def is_missing_def validate_field_def
          String_deserialize_def data_get_def set_value.simps has_dot_def)
  have h2: "deserialize (Field KBoolean (Value Missing) [] True (Some ''age'')) (data_get ?data ''age'')
              = Inl (ValidationError [''Field age must be a boolean value''])"
    by (simp add: deserialize.simps validate_missing_def is_missing_def data_get_def
          Boolean_deserialize_def py_in_def py_eq_def truthy_set_def falsy_set_def
          upper_def upper_char_def str_name_def)
  from load_first_failing_field [OF h1 h2] show ?thesis
    by simp
qed

section \<open>Collected fields\<close>

lemma upd_all_Nil: "upd_all [] d = d"
  by (simp add: upd_all_def)

lemma upd_all_Cons: "upd_all ((k, v) # ps) d = upd_all ps (AList.update k v d)"
  by (simp add: upd_all_def)

lemma upd_all_append: "upd_all (xs @ ys) d = upd_all ys (upd_all xs d)"
  by (simp add: upd_all_def)

lemma py_dict_upd_all: "py_dict ps = upd_all ps []"
  by (simp add: py_dict_def upd_all_def)

lemma py_dict_append: "py_dict (xs @ ys) = upd_all ys (py_dict xs)"
  by (simp add: py_dict_upd_all upd_all_append)

lemma upd_all_distinct:
  "distinct (map fst d) \<Longrightarrow> distinct (map fst (upd_all ps d))"
proof (induction ps arbitrary: d)
  case Nil
  then show ?case by (simp add: upd_all_Nil)
next
  case (Cons p ps)
  obtain k v where p: "p = (k, v)" by (cases p)
  show ?case
    using Cons by (simp add: p upd_all_Cons distinct_update)
qed

lemma upd_all_keys:
  assumes "distinct (map fst ps)"
  shows "map fst (upd_all ps d)
           = map fst d @ filter (\<lambda>n. n \<notin> set (map fst d)) (map fst ps)"
  using assms
proof (induction ps arbitrary: d)
  case Nil
  then show ?case by (simp add: upd_all_Nil)
next
  case (Cons p ps)
  obtain k v where p: "p = (k, v)" by (cases p)
  from Cons.prems p have k: "k \<notin> set (map fst ps)" and dps: "distinct (map fst ps)"
    by auto
  have IH: "map fst (upd_all ps (AList.update k v d))
      = map fst (AList.update k v d)
          @ filter (\<lambda>n. n \<notin> set (map fst (AList.update k v d))) (map fst ps)"
    using Cons.IH [OF dps] .
  show ?case
  proof (cases "k \<in> set (map fst d)")
    case True
    then have "map fst (AList.update k v d) = map fst d"
      by (simp add: update_keys)
    with IH True show ?thesis
      by (simp add: p upd_all_Cons)
  next
    case False
    then have uk: "map fst (AList.update k v d) = map fst d @ [k]"
      by (simp add: update_keys)
    have "filter (\<lambda>n. n \<notin> set (map fst d @ [k])) (map fst ps)
            = filter (\<lambda>n. n \<notin> set (map fst d)) (map fst ps)"
      using k by (intro filter_cong) auto
    with IH uk False show ?thesis
      by (simp add: p upd_all_Cons)
  qed
qed

lemma upd_all_map_of:
  assumes "distinct (map fst ps)"
  shows "map_of (upd_all ps d) = map_of d ++ map_of ps"
  using assms
proof (induction ps arbitrary: d)
  case Nil
  then show ?case by (simp add: upd_all_Nil)
next
  case (Cons p ps)
  obtain k v where p: "p = (k, v)" by (cases p)
  from Cons.prems p have k: "k \<notin> fst ` set ps" and dps: "distinct (map fst ps)"
    by auto
  have none: "map_of ps k = None"
    using k by (simp add: map_of_eq_None_iff)
  have "map_of (upd_all (p # ps) d) = map_of (AList.update k v d) ++ map_of ps"
    using Cons.IH [OF dps, of "AList.update k v d"] by (simp only: p upd_all_Cons)
  also have "\<dots> = (map_of d)(k \<mapsto> v) ++ map_of ps"
    by (simp only: update_conv')
  also have "\<dots> = map_of d ++ map_of (p # ps)"
    using none by (auto simp: p map_add_def fun_eq_iff split: option.splits)
  finally show ?case .
qed

lemma alist_eqI:
  assumes "distinct (map fst a)" and "map fst a = map fst b" and "map_of a = map_of b"
  shows "a = b"
  using assms
proof (induction a arbitrary: b)
  case Nil
  then show ?case by simp
next
  case (Cons p a)
  obtain k v where p: "p = (k, v)" by (cases p)
  from Cons.prems(2) p obtain w b' where b: "b = (k, w) # b'" and keys: "map fst a = map fst b'"
    by (cases b) auto
  have "map_of (p # a) k = map_of b k"
    using fun_cong [OF Cons.prems(3), of k] .
  then have vw: "v = w" by (simp add: p b)
  from Cons.prems(1) p have k: "k \<notin> fst ` set a" and da: "distinct (map fst a)"
    by auto
  from k keys have k': "k \<notin> fst ` set b'"
    by (metis set_map)
  have "map_of a n = map_of b' n" for n
  proof (cases "n = k")
    case True
    have "map_of a k = None" and "map_of b' k = None"
      using k k' by (simp_all add: map_of_eq_None_iff)
    with True show ?thesis by simp
  next
    case False
    have "map_of (p # a) n = map_of b n"
      using fun_cong [OF Cons.prems(3), of n] .
    with False show ?thesis by (simp add: p b)
  qed
  then have "map_of a = map_of b'" by (simp add: fun_eq_iff)
  with Cons.IH [OF da keys] have "a = b'" by simp
  with vw show ?case by (simp add: p b)
qed

lemma upd_all_absorb:
  assumes "distinct (map fst d)" and "distinct (map fst ps)"
  shows "upd_all (upd_all ps d) d = upd_all ps d"
proof -
  let ?e = "upd_all ps d"
  have de: "distinct (map fst ?e)"
    using upd_all_distinct [OF assms(1)] .
  have ke: "map fst ?e = map fst d @ filter (\<lambda>n. n \<notin> set (map fst d)) (map fst ps)"
    using upd_all_keys [OF assms(2)] .
  have keys: "map fst (upd_all ?e d) = map fst ?e"
    unfolding upd_all_keys [OF de, of d] by (subst (1 2) ke) (simp add: filter_id_conv)
  have dom: "dom (map_of d) \<subseteq> dom (map_of ?e)"
    unfolding dom_map_of_conv_image_fst using ke by (metis set_append set_map sup_ge1)
  have "map_of (upd_all ?e d) = map_of d ++ map_of ?e"
    using upd_all_map_of [OF de] .
  also have "\<dots> = map_of ?e"
    using dom by (auto simp: map_add_def fun_eq_iff split: option.splits)
  finally have maps: "map_of (upd_all ?e d) = map_of ?e" .
  show ?thesis
    using alist_eqI [OF upd_all_distinct [OF assms(1)] keys maps] .
qed

lemma get_fields_all_fields: "all_fields (get_fields attrs)"
  by (auto simp: all_fields_def get_fields_def list_all_iff)

lemma get_fields_id: "all_fields t \<Longrightarrow> get_fields t = t"
  by (auto simp: all_fields_def get_fields_def list_all_iff filter_id_conv)

lemma update_all_fields:
  "all_fields d \<Longrightarrow> is_field_attr v \<Longrightarrow> all_fields (AList.update k v d)"
  by (induction d) (auto simp: all_fields_def)

lemma upd_all_all_fields:
  "all_fields d \<Longrightarrow> all_fields ps \<Longrightarrow> all_fields (upd_all ps d)"
proof (induction ps arbitrary: d)
  case Nil
  then show ?case by (simp add: upd_all_Nil)
next
  case (Cons p ps)
  obtain k v where p: "p = (k, v)" by (cases p)
  from Cons.prems p have "is_field_attr v" and "all_fields ps"
    by (simp_all add: all_fields_def)
  with Cons show ?case
    by (simp add: p upd_all_Cons update_all_fields)
qed

lemma get_fields_distinct: "distinct (map fst body) \<Longrightarrow> distinct (map fst (get_fields body))"
  by (simp add: get_fields_def distinct_map_filter)

lemma table_of_all_fields: "all_fields (table_of bodies)"
  by (induction bodies)
     (simp_all add: all_fields_def[of "[]"] upd_all_all_fields get_fields_all_fields)

lemma table_of_distinct: "distinct (map fst (table_of bodies))"
  by (induction bodies) (simp_all add: upd_all_distinct)

lemma get_fields_by_mro_inherited: "get_fields_by_mro (k # mro) = inherited_of mro"
  by (simp add: get_fields_by_mro_def inherited_of_def)

lemma inherited_of_Cons:
  "inherited_of (k # mro) = inherited_of mro @ get_fields (getattr_declared_fields k)"
  by (simp add: inherited_of_def)

lemma SchemaMeta_new_declared:
  "getattr_declared_fields (SchemaMeta_new body mro)
     = upd_all (get_fields body) (py_dict (inherited_of mro))"
  by (simp add: SchemaMeta_new_def Let_def getattr_declared_fields_def
        get_fields_by_mro_inherited py_dict_append)

lemma base_inherited: "py_dict (inherited_of (define_chain [])) = []"
  by (simp add: inherited_of_def getattr_declared_fields_def object_cls_def SchemaABC_cls_def
        Schema_cls_def SchemaMeta_new_def Let_def get_fields_def get_fields_by_mro_def py_dict_def)

lemma base_declared: "getattr_declared_fields (hd (define_chain [])) = []"
  by (simp add: inherited_of_def getattr_declared_fields_def object_cls_def SchemaABC_cls_def
        Schema_cls_def SchemaMeta_new_def Let_def get_fields_def get_fields_by_mro_def py_dict_def)

lemma chain_tables:
  assumes "\<forall>body \<in> set bodies. distinct (map fst body)"
  shows "py_dict (inherited_of (define_chain bodies)) = table_of bodies
       \<and> chain_declared bodies = table_of bodies"
  using assms
proof (induction bodies)
  case Nil
  show ?case
    using base_inherited base_declared by (simp add: chain_declared_def)
next
  case (Cons body older)
  let ?mro = "define_chain older"
  let ?K = "SchemaMeta_new body ?mro"
  from Cons have inh: "py_dict (inherited_of ?mro) = table_of older"
    by simp
  from Cons.prems have db: "distinct (map fst (get_fields body))"
    by (simp add: get_fields_distinct)
  have decl: "getattr_declared_fields ?K = table_of (body # older)"
    by (simp add: SchemaMeta_new_declared inh)
  have "py_dict (inherited_of (?K # ?mro))
          = upd_all (get_fields (table_of (body # older))) (table_of older)"
    by (simp only: inherited_of_Cons py_dict_append decl inh)
  also have "\<dots> = upd_all (table_of (body # older)) (table_of older)"
    by (simp only: get_fields_id [OF table_of_all_fields])
  also have "\<dots> = table_of (body # older)"
    using upd_all_absorb [OF table_of_distinct db, of older] by simp
  finally show ?case
    using decl by (simp add: chain_declared_def)
qed

lemma table_of_keys:
  assumes "\<forall>body \<in> set bodies. distinct (map fst body)"
  shows "map fst (table_of bodies) = first_declared_order bodies"
  using assms
proof (induction bodies)
  case Nil
  then show ?case by simp
next
  case (Cons body older)
  from Cons.prems have db: "distinct (map fst (get_fields body))"
    by (simp add: get_fields_distinct)
  from Cons have IH: "map fst (table_of older) = first_declared_order older"
    by simp
  show ?case
    by (simp add: upd_all_keys [OF db] IH)
qed

lemma table_of_map_of:
  assumes "\<forall>body \<in> set bodies. distinct (map fst body)"
  shows "map_of (table_of bodies) n = most_derived_declaration bodies n"
  using assms
proof (induction bodies)
  case Nil
  then show ?case by simp
next
  case (Cons body older)
  from Cons.prems have db: "distinct (map fst (get_fields body))"
    by (simp add: get_fields_distinct)
  from Cons have IH: "map_of (table_of older) n = most_derived_declaration older n"
    by simp
  show ?case
    by (simp add: upd_all_map_of [OF db] IH map_add_def split: option.splits)
qed

lemma py_dict_id:
  assumes "distinct (map fst t)"
  shows "py_dict t = t"
proof -
  have k: "map fst (upd_all t []) = map fst t"
    using upd_all_keys [OF assms, of "[]"] by simp
  have m: "map_of (upd_all t []) = map_of t"
    using upd_all_map_of [OF assms, of "[]"] by simp
  have d: "distinct (map fst (upd_all t []))"
    by (simp add: upd_all_distinct)
  show ?thesis
    using alist_eqI [OF d k m] by (simp add: py_dict_upd_all)
qed

text \<open>
  Single inheritance. For a chain of schema classes whose bodies are dicts, the collected
  \<open>_declared_fields\<close> of the most derived class lists the names in the order of their
  first declaration along the chain, maps each name to its declaration by the most
  derived class that declares it, and holds each name once. Collecting is idempotent: a
  subclass that declares nothing gets the same table, and building a dict from the table
  gives the table back.
\<close>

lemma chain_declared_fields_order:
  assumes "\<forall>body \<in> set bodies. distinct (map fst body)"
  shows "map fst (chain_declared bodies) = first_declared_order bodies
       \<and> (\<forall>n. map_of (chain_declared bodies) n = most_derived_declaration bodies n)
       \<and> distinct (map fst (chain_declared bodies))
       \<and> chain_declared ([] # bodies) = chain_declared bodies
       \<and> py_dict (chain_declared bodies) = chain_declared bodies"
proof -
  have t: "chain_declared bodies = table_of bodies"
    using chain_tables [OF assms] by simp
  have "\<forall>body \<in> set ([] # bodies). distinct (map fst body)"
    using assms by simp
  from chain_tables [OF this] have t': "chain_declared ([] # bodies) = table_of ([] # bodies)"
    by simp
  have e: "table_of ([] # bodies) = table_of bodies"
    by (simp add: get_fields_def upd_all_Nil)
  show ?thesis
    unfolding t t' e
    using table_of_keys [OF assms] table_of_map_of [OF assms] table_of_distinct [of bodies]
      py_dict_id [OF table_of_distinct, of bodies]
    by simp
qed

lemma chain_declared_fields_example:
  "chain_declared
     [[(''email'', FieldInstance (3::nat)), (''id'', FieldInstance 4), (''helper'', OtherAttr)],
      [(''id'', FieldInstance 1), (''name'', FieldInstance 2)]]
   = [(''id'', FieldInstance 4), (''name'', FieldInstance 2), (''email'', FieldInstance 3)]"
proof -
  let ?bodies = "[[(''email'', FieldInstance (3::nat)), (''id'', FieldInstance 4), (''helper'', OtherAttr)],
      [(''id'', FieldInstance 1), (''name'', FieldInstance 2)]]"
  let ?t = "[(''id'', FieldInstance 4), (''name'', FieldInstance 2), (''email'', FieldInstance (3::nat))]"
  have h: "\<forall>body \<in> set ?bodies. distinct (map fst body)"
    by simp
  from chain_declared_fields_order [OF h]
  have k: "map fst (chain_declared ?bodies) = first_declared_order ?bodies"
    and m: "map_of (chain_declared ?bodies) = most_derived_declaration ?bodies"
    and d: "distinct (map fst (chain_declared ?bodies))"
    by auto
  have k': "map fst (chain_declared ?bodies) = map fst ?t"
    unfolding k by (simp add: get_fields_def)
  have m': "map_of (chain_declared ?bodies) = map_of ?t"
    unfolding m by (auto simp: get_fields_def fun_eq_iff)
  show ?thesis
    using alist_eqI [OF d k' m'] .
qed

text \<open>
  Claim C3. With multiple inheritance the table is not the one the claim describes. Take
  \<open>Base\<close> declaring \<open>a\<close>, \<open>L(Base)\<close> declaring \<open>c\<close>, \<open>R(Base)\<close> declaring \<open>a\<close>
  again and \<open>b\<close>, and \<open>D(L, R)\<close> declaring nothing; the resolution order of \<open>D\<close> is
  \<open>D, L, R, Base, Schema, SchemaABC, object\<close>. The most derived class that declares
  \<open>a\<close> is \<open>R\<close>, and \<open>R\<close> comes before \<open>Base\<close> in the order. But \<open>L\<close> hands on
  its whole table, which holds the \<open>a\<close> it inherited from \<open>Base\<close>, and \<open>L\<close> is
  read after \<open>R\<close>: the table of \<open>D\<close> maps \<open>a\<close> to the declaration of \<open>Base\<close>.
  The names keep the places of their first declaration.
\<close>

theorem diamond_declared_fields:
  "getattr_declared_fields
     (SchemaMeta_new []
        [SchemaMeta_new [(''c'', FieldInstance ''L.c'')]
           [SchemaMeta_new [(''a'', FieldInstance ''Base.a'')] (define_chain [])],
         SchemaMeta_new [(''a'', FieldInstance ''R.a''), (''b'', FieldInstance ''R.b'')]
           [SchemaMeta_new [(''a'', FieldInstance ''Base.a'')] (define_chain [])],
         SchemaMeta_new [(''a'', FieldInstance ''Base.a'')] (define_chain []),
         Schema_cls, SchemaABC_cls, object_cls])
   = [(''a'', FieldInstance ''Base.a''), (''b'', FieldInstance ''R.b''),
      (''c'', FieldInstance ''L.c'')]
   \<and> getattr_declared_fields
       (SchemaMeta_new [(''a'', FieldInstance ''R.a''), (''b'', FieldInstance ''R.b'')]
          [SchemaMeta_new [(''a'', FieldInstance ''Base.a'')] (define_chain [])])
     = [(''a'', FieldInstance ''R.a''), (''b'', FieldInstance ''R.b'')]"
proof -
  define Base :: "string klass"
    where "Base = SchemaMeta_new [(''a'', FieldInstance ''Base.a'')] (define_chain [])"
  define L :: "string klass"
    where "L = SchemaMeta_new [(''c'', FieldInstance ''L.c'')] [Base]"
  define R :: "string klass"
    where "R = SchemaMeta_new [(''a'', FieldInstance ''R.a''), (''b'', FieldInstance ''R.b'')] [Base]"
  define D :: "string klass"
    where "D = SchemaMeta_new [] [L, R, Base, Schema_cls, SchemaABC_cls, object_cls]"
  have roots: "inherited_of [Schema_cls, SchemaABC_cls, object_cls :: string klass] = []"
    by (simp add: inherited_of_def getattr_declared_fields_def object_cls_def SchemaABC_cls_def
          Schema_cls_def SchemaMeta_new_def Let_def get_fields_def get_fields_by_mro_def
          py_dict_def)
  have base: "getattr_declared_fields Base = [(''a'', FieldInstance ''Base.a'')]"
    unfolding Base_def SchemaMeta_new_declared
    by (simp add: roots get_fields_def py_dict_def upd_all_def)
  have inh1: "inherited_of [Base] = [(''a'', FieldInstance ''Base.a'')]"
    by (simp add: inherited_of_def base get_fields_def)
  have l: "getattr_declared_fields L
      = [(''a'', FieldInstance ''Base.a''), (''c'', FieldInstance ''L.c'')]"
    unfolding L_def SchemaMeta_new_declared
    by (simp add: inh1 get_fields_def py_dict_def upd_all_def)
  have r: "getattr_declared_fields R
      = [(''a'', FieldInstance ''R.a''), (''b'', FieldInstance ''R.b'')]"
    unfolding R_def SchemaMeta_new_declared
    by (simp add: inh1 get_fields_def py_dict_def upd_all_def)
  have "inherited_of [L, R, Base, Schema_cls, SchemaABC_cls, object_cls]
      = inherited_of [Schema_cls, SchemaABC_cls, object_cls]
          @ get_fields (getattr_declared_fields Base)
          @ get_fields (getattr_declared_fields R)
          @ get_fields (getattr_declared_fields L)"
    by (simp add: inherited_of_def)
  then have inh: "inherited_of [L, R, Base, Schema_cls, SchemaABC_cls, object_cls]
      = [(''a'', FieldInstance ''Base.a''), (''a'', FieldInstance ''R.a''),
         (''b'', FieldInstance ''R.b''), (''a'', FieldInstance ''Base.a''),
         (''c'', FieldInstance ''L.c'')]"
    by (simp add: roots base l r get_fields_def)
  have d: "getattr_declared_fields D
      = [(''a'', FieldInstance ''Base.a''), (''b'', FieldInstance ''R.b''),
         (''c'', FieldInstance ''L.c'')]"
    unfolding D_def SchemaMeta_new_declared
    by (simp add: inh get_fields_def py_dict_def upd_all_def)
  from d r show ?thesis
    unfolding D_def L_def R_def Base_def by simp
qed

section \<open>The schema of a nested field\<close>

lemma schema_property_first_access:
  assumes "schema_cache f = None"
    and "nested f = Direct v \<or> (\<exists>k. nested f = Factory k \<and> call_factory w k = Inr v)"
  shows "schema_property w f =
     (case v of
        SchemaInstance s0 \<Rightarrow>
          Inr (copy_init_fields w s0, f\<lparr>schema_cache := Some (copy_init_fields w s0)\<rparr>)
      | SchemaClass c \<Rightarrow>
          (case construct w c (nested_many f) of
             Inl e \<Rightarrow> Inl e
           | Inr s \<Rightarrow> Inr (s, f\<lparr>schema_cache := Some s\<rparr>))
      | NameStr nm \<Rightarrow>
          (case get_class nm (the_registry w) of
             Inl e \<Rightarrow> Inl e
           | Inr c \<Rightarrow>
               (case construct w c (nested_many f) of
                  Inl e \<Rightarrow> Inl e
                | Inr s \<Rightarrow> Inr (s, f\<lparr>schema_cache := Some s\<rparr>)))
      | OtherVal \<Rightarrow> Inl (APIException ''Contact admin for support''))"
  using assms
  by (auto simp: schema_property_def Let_def split: nested_val.splits sum.splits)

text \<open>
  Claim C6. Declaring a nested field resolves nothing: the cache is empty afterwards.
  The first access of the property on a field whose cache is empty resolves the
  reference, given directly or as the result of calling the callable: an instance is
  copied and its fields initialised, a class is called with the field's \<open>many\<close>, a name
  is looked up in the registry and the class found is called; the instance made is
  returned and left in the cache. An access that succeeds leaves the instance in the
  cache, and every later access returns that instance and leaves the field as it is in
  any world at all, so it depends on no registry, callable or constructor. A name that
  the registry does not hold when the field is declared resolves at the first access made
  after the class has been registered.
\<close>

theorem schema_property_memoized:
  "schema_cache (Nested_init n m) = None
   \<and> (schema_cache f = None
        \<and> (nested f = Direct v \<or> (\<exists>k. nested f = Factory k \<and> call_factory w k = Inr v))
        \<longrightarrow> (\<forall>s0. v = SchemaInstance s0
                \<longrightarrow> schema_property w f
                    = Inr (copy_init_fields w s0,
                           f\<lparr>schema_cache := Some (copy_init_fields w s0)\<rparr>))
          \<and> (\<forall>c0 s1. v = SchemaClass c0 \<and> construct w c0 (nested_many f) = Inr s1
                \<longrightarrow> schema_property w f = Inr (s1, f\<lparr>schema_cache := Some s1\<rparr>))
          \<and> (\<forall>nm0 c0 s1. v = NameStr nm0 \<and> get_class nm0 (the_registry w) = Inr c0
                  \<and> construct w c0 (nested_many f) = Inr s1
                \<longrightarrow> schema_property w f = Inr (s1, f\<lparr>schema_cache := Some s1\<rparr>))
          \<and> (v = OtherVal
                \<longrightarrow> schema_property w f = Inl (APIException ''Contact admin for support'')))
   \<and> (schema_property w self = Inr (s, self')
        \<longrightarrow> schema_cache self' = Some s
            \<and> (\<forall>w'. schema_property w' self' = Inr (s, self')))
   \<and> (reg nm = None \<and> construct w c m = Inr s2
        \<longrightarrow> schema_property (w\<lparr>the_registry := register nm c reg\<rparr>)
              (Nested_init (Direct (NameStr nm)) m)
            = Inr (s2, (Nested_init (Direct (NameStr nm)) m)\<lparr>schema_cache := Some s2\<rparr>))"
proof (intro conjI impI allI)
  show "schema_cache (Nested_init n m) = None"
    by (simp add: Nested_init_def)
next
  fix s0
  assume "schema_cache f = None
        \<and> (nested f = Direct v \<or> (\<exists>k. nested f = Factory k \<and> call_factory w k = Inr v))"
    and "v = SchemaInstance s0"
  then show "schema_property w f
      = Inr (copy_init_fields w s0, f\<lparr>schema_cache := Some (copy_init_fields w s0)\<rparr>)"
    using schema_property_first_access [of f v w] by simp
next
  fix c0 s1
  assume "schema_cache f = None
        \<and> (nested f = Direct v \<or> (\<exists>k. nested f = Factory k \<and> call_factory w k = Inr v))"
    and "v = SchemaClass c0 \<and> construct w c0 (nested_many f) = Inr s1"
  then show "schema_property w f = Inr (s1, f\<lparr>schema_cache := Some s1\<rparr>)"
    using schema_property_first_access [of f v w] by simp
next
  fix nm0 c0 s1
  assume "schema_cache f = None
        \<and> (nested f = Direct v \<or> (\<exists>k. nested f = Factory k \<and> call_factory w k = Inr v))"
    and "v = NameStr nm0 \<and> get_class nm0 (the_registry w) = Inr c0
           \<and> construct w c0 (nested_many f) = Inr s1"
  then show "schema_property w f = Inr (s1, f\<lparr>schema_cache := Some s1\<rparr>)"
    using schema_property_first_access [of f v w] by simp
next
  assume "schema_cache f = None
        \<and> (nested f = Direct v \<or> (\<exists>k. nested f = Factory k \<and> call_factory w k = Inr v))"
    and "v = OtherVal"
  then show "schema_property w f = Inl (APIException ''Contact admin for support'')"
    using schema_property_first_access [of f v w] by simp
next
  assume a: "schema_property w self = Inr (s, self')"
  then show c: "schema_cache self' = Some s"
    by (auto simp: schema_property_def Let_def split: option.splits sum.splits nested_val.splits
          nested_ref.splits)
  fix w'
  from c show "schema_property w' self' = Inr (s, self')"
    by (simp add: schema_property_def)
next
  assume "reg nm = None \<and> construct w c m = Inr s2"
  then show "schema_property (w\<lparr>the_registry := register nm c reg\<rparr>)
              (Nested_init (Direct (NameStr nm)) m)
            = Inr (s2, (Nested_init (Direct (NameStr nm)) m)\<lparr>schema_cache := Some s2\<rparr>)"
    by (simp add: schema_property_def Nested_init_def get_class_def register_simple_key)
qed

text \<open>
  A world in which the class \<open>B\<close> (identity 5) is registered, calling a class gives the
  instance numbered by the class's identity, copying an instance adds 100 to its number,
  and the callable 0 returns the instance 2. The four kinds of reference resolve at the
  first access; afterwards, in a world where the registry is empty and every call
  raises, the field still returns the cached instance.
\<close>

theorem schema_property_memoized_witness:
  "schema_property
     \<lparr>the_registry = register ''B'' \<lparr>cls_module = ''app'', cls_ident = 5\<rparr> Map.empty,
      call_factory = (\<lambda>k. if k = 0 then Inr (SchemaInstance 2) else Inl (APIException ''called'')),
      construct = (\<lambda>c m. Inr (cls_ident c)),
      copy_init_fields = (\<lambda>s. s + 100)\<rparr>
     (Nested_init (Direct (SchemaInstance 1)) False)
    = Inr (101, \<lparr>nested = Direct (SchemaInstance 1), nested_many = False,
                 schema_cache = Some 101\<rparr>)
   \<and> schema_property
     \<lparr>the_registry = register ''B'' \<lparr>cls_module = ''app'', cls_ident = 5\<rparr> Map.empty,
      call_factory = (\<lambda>k. if k = 0 then Inr (SchemaInstance 2) else Inl (APIException ''called'')),
      construct = (\<lambda>c m. Inr (cls_ident c)),
      copy_init_fields = (\<lambda>s. s + 100)\<rparr>
     (Nested_init (Direct (SchemaClass \<lparr>cls_module = ''app'', cls_ident = 7\<rparr>)) True)
    = Inr (7, \<lparr>nested = Direct (SchemaClass \<lparr>cls_module = ''app'', cls_ident = 7\<rparr>),
               nested_many = True, schema_cache = Some 7\<rparr>)
   \<and> schema_property
     \<lparr>the_registry = register ''B'' \<lparr>cls_module = ''app'', cls_ident = 5\<rparr> Map.empty,
      call_factory = (\<lambda>k. if k = 0 then Inr (SchemaInstance 2) else Inl (APIException ''called'')),
      construct = (\<lambda>c m. Inr (cls_ident c)),
      copy_init_fields = (\<lambda>s. s + 100)\<rparr>
     (Nested_init (Direct (NameStr ''B'')) False)
    = Inr (5, \<lparr>nested = Direct (NameStr ''B''), nested_many = False, schema_cache = Some 5\<rparr>)
   \<and> schema_property
     \<lparr>the_registry = register ''B'' \<lparr>cls_module = ''app'', cls_ident = 5\<rparr> Map.empty,
      call_factory = (\<lambda>k. if k = 0 then Inr (SchemaInstance 2) else Inl (APIException ''called'')),
      construct = (\<lambda>c m. Inr (cls_ident c)),
      copy_init_fields = (\<lambda>s. s + 100)\<rparr>
     (Nested_init (Factory 0) False)
    = Inr (102, \<lparr>nested = Factory 0, nested_many = False, schema_cache = Some 102\<rparr>)
   \<and> schema_property
     \<lparr>the_registry = Map.empty,
      call_factory = (\<lambda>k. Inl (APIException ''called'')),
      construct = (\<lambda>c m. Inl (APIException ''constructed'')),
      copy_init_fields = (\<lambda>s. s + 1)\<rparr>
     \<lparr>nested = Factory 0, nested_many = False, schema_cache = Some 102\<rparr>
    = Inr (102, \<lparr>nested = Factory 0, nested_many = False, schema_cache = Some (102::nat)\<rparr>)"
proof -
  let ?c = "\<lparr>cls_module = ''app'', cls_ident = 5\<rparr>"
  let ?c7 = "\<lparr>cls_module = ''app'', cls_ident = 7\<rparr>"
  let ?base = "\<lparr>the_registry = Map.empty,
      call_factory = (\<lambda>k. if k = 0 then Inr (SchemaInstance 2) else Inl (APIException ''called'')),
      construct = (\<lambda>c m. Inr (cls_ident c)),
      copy_init_fields = (\<lambda>s. s + 100)\<rparr> :: nat world"
  let ?good = "\<lparr>the_registry = register ''B'' ?c Map.empty,
      call_factory = (\<lambda>k. if k = 0 then Inr (SchemaInstance 2) else Inl (APIException ''called'')),
      construct = (\<lambda>c m. Inr (cls_ident c)),
      copy_init_fields = (\<lambda>s. s + 100)\<rparr> :: nat world"
  let ?bad = "\<lparr>the_registry = Map.empty,
      call_factory = (\<lambda>k. Inl (APIException ''called'')),
      construct = (\<lambda>c m. Inl (APIException ''constructed'')),
      copy_init_fields = (\<lambda>s. s + 1)\<rparr> :: nat world"
  let ?fi = "Nested_init (Direct (SchemaInstance 1)) False :: nat Nested"
  let ?fc = "Nested_init (Direct (SchemaClass ?c7)) True :: nat Nested"
  let ?fn = "Nested_init (Direct (NameStr ''B'')) False :: nat Nested"
  let ?ff = "Nested_init (Factory 0) False :: nat Nested"
  let ?ff' = "\<lparr>nested = Factory 0, nested_many = False, schema_cache = Some (102::nat)\<rparr>"
  have gw: "?good = ?base\<lparr>the_registry := register ''B'' ?c Map.empty\<rparr>"
    by simp
  have i: "schema_property ?good ?fi
      = Inr (101, \<lparr>nested = Direct (SchemaInstance 1), nested_many = False,
                   schema_cache = Some 101\<rparr>)"
    using schema_property_memoized
      [where f = ?fi and v = "SchemaInstance 1" and w = ?good]
    by (simp add: Nested_init_def)
  have c: "schema_property ?good ?fc
      = Inr (7, \<lparr>nested = Direct (SchemaClass ?c7), nested_many = True, schema_cache = Some 7\<rparr>)"
    using schema_property_memoized
      [where f = ?fc and v = "SchemaClass ?c7" and w = ?good]
    by (simp add: Nested_init_def)
  have n: "schema_property ?good ?fn
      = Inr (5, \<lparr>nested = Direct (NameStr ''B''), nested_many = False, schema_cache = Some 5\<rparr>)"
    using schema_property_memoized
      [where w = ?base and reg = Map.empty and nm = "''B''" and c = ?c and m = False
         and ?s2.0 = 5]
    by (simp add: Nested_init_def)
  have f: "schema_property ?good ?ff = Inr (102, ?ff')"
    using schema_property_memoized
      [where f = ?ff and v = "SchemaInstance 2" and w = ?good]
    by (simp add: Nested_init_def)
  have later: "schema_property ?bad ?ff' = Inr (102, ?ff')"
    using schema_property_memoized
      [where w = ?good and self = ?ff and s = 102 and self' = ?ff'] f
    by blast
  from i c n f later show ?thesis
    by (simp only: HOL.simp_thms)
qed

section \<open>Binding\<close>

lemma bind_seq_snoc:
  "bind_seq (calls @ [(a, n, s)]) h = bind_to_schema (bind_seq calls h) a n s"
  by (simp add: bind_seq_def)

lemma bind_is_FieldABC: "is_FieldABC (bind_to_schema h a n s) p = is_FieldABC h p"
  by (auto simp: bind_to_schema_def is_FieldABC_def Let_def split: option.splits heap_obj.splits)

lemma bind_other: "g \<noteq> a \<Longrightarrow> bind_to_schema h a n s g = h g"
  by (simp add: bind_to_schema_def Let_def split: option.splits heap_obj.splits)

lemma bind_parent_kept:
  assumes "h g = Some (FieldObj b)" and "f_parent b = Some p"
  shows "\<exists>b'. bind_to_schema h a n s g = Some (FieldObj b') \<and> f_parent b' = Some p"
proof (cases "g = a")
  case True
  with assms show ?thesis
    by (simp add: bind_to_schema_def Let_def)
next
  case False
  with assms show ?thesis
    by (simp add: bind_other)
qed

lemma ancestor_mono:
  assumes "first_non_field_ancestor h g r"
  shows "first_non_field_ancestor (bind_to_schema h a n s) g r"
  using assms
proof (induction rule: first_non_field_ancestor.induct)
  case (parent_is_it h g b p)
  from bind_parent_kept [of h g b p a n s] parent_is_it(1,2)
  obtain b' where "bind_to_schema h a n s g = Some (FieldObj b')" "f_parent b' = Some p"
    by blast
  moreover have "\<not> is_FieldABC (bind_to_schema h a n s) p"
    using parent_is_it(3) by (simp add: bind_is_FieldABC)
  ultimately show ?case
    by (rule first_non_field_ancestor.parent_is_it)
next
  case (through_parent h g b p r)
  from bind_parent_kept [of h g b p a n s] through_parent(1,2)
  obtain b' where "bind_to_schema h a n s g = Some (FieldObj b')" "f_parent b' = Some p"
    by blast
  moreover have "is_FieldABC (bind_to_schema h a n s) p"
    using through_parent(3) by (simp add: bind_is_FieldABC)
  ultimately show ?case
    using through_parent.IH by (rule first_non_field_ancestor.through_parent)
qed

lemma bind_roots_ok:
  assumes "roots_ok h"
  shows "roots_ok (bind_to_schema h a n s)"
  unfolding roots_ok_def
proof (intro allI impI)
  fix g b' r
  let ?h' = "bind_to_schema h a n s"
  assume g: "?h' g = Some (FieldObj b')" and r: "f_root b' = Some r"
  show "first_non_field_ancestor ?h' g r"
  proof (cases "g = a")
    case False
    with g have "h g = Some (FieldObj b')" by (simp add: bind_other)
    with assms r have "first_non_field_ancestor h g r"
      by (simp add: roots_ok_def)
    then show ?thesis by (rule ancestor_mono)
  next
    case True
    from g True obtain b where b: "h a = Some (FieldObj b)"
      by (auto simp: bind_to_schema_def Let_def split: option.splits heap_obj.splits)
    show ?thesis
    proof (cases "f_root b")
      case (Some r0)
      with b g r True have "r0 = r"
        by (auto simp: bind_to_schema_def Let_def)
      with assms b Some have "first_non_field_ancestor h a r"
        by (simp add: roots_ok_def)
      then show ?thesis unfolding True by (rule ancestor_mono)
    next
      case None
      define p where "p = (case f_parent b of Some p \<Rightarrow> p | None \<Rightarrow> s)"
      have par: "f_parent b' = Some p"
        using b g True by (auto simp: bind_to_schema_def Let_def p_def)
      have root: "(case h p of Some (FieldObj pb) \<Rightarrow> f_root pb | _ \<Rightarrow> Some p) = Some r"
        using b g r True None unfolding p_def
        by (auto simp: bind_to_schema_def Let_def)
      show ?thesis
      proof (cases "is_FieldABC h p")
        case False
        then have "r = p"
          using root by (auto simp: is_FieldABC_def split: option.splits heap_obj.splits)
        moreover have "\<not> is_FieldABC ?h' p"
          using False by (simp add: bind_is_FieldABC)
        ultimately show ?thesis
          using g par unfolding True
          by (auto intro: first_non_field_ancestor.parent_is_it)
      next
        case isf: True
        then obtain pb where pb: "h p = Some (FieldObj pb)" and pr: "f_root pb = Some r"
          using root by (auto simp: is_FieldABC_def split: option.splits heap_obj.splits)
        with assms have "first_non_field_ancestor h p r"
          by (simp add: roots_ok_def)
        then have "first_non_field_ancestor ?h' p r"
          by (rule ancestor_mono)
        moreover have "is_FieldABC ?h' p"
          using isf by (simp add: bind_is_FieldABC)
        ultimately show ?thesis
          using g par unfolding True
          by (auto intro: first_non_field_ancestor.through_parent)
      qed
    qed
  qed
qed

lemma fresh_roots_ok:
  assumes "fresh_heap h"
  shows "roots_ok h"
  unfolding roots_ok_def
proof (intro allI impI)
  fix a b r
  assume "h a = Some (FieldObj b)" and r: "f_root b = Some r"
  with assms have "b = unbound"
    by (simp add: fresh_heap_def)
  with r show "first_non_field_ancestor h a r"
    by (simp add: unbound_def)
qed

lemma bind_seq_roots_ok: "fresh_heap h0 \<Longrightarrow> roots_ok (bind_seq calls h0)"
proof (induction calls rule: rev_induct)
  case Nil
  then show ?case by (simp add: bind_seq_def fresh_roots_ok)
next
  case (snoc c calls)
  obtain a n s where c: "c = (a, n, s)" by (cases c)
  from snoc show ?case
    by (simp add: c bind_seq_snoc bind_roots_ok)
qed

lemma bind_bound_noop:
  assumes "h a = Some (FieldObj b)" and "f_parent b = Some p" and "f_root b = Some r"
    and "f_name b = Some nm" and "nm \<noteq> []"
  shows "bind_to_schema h a n s = h"
proof -
  have eq: "\<lparr>f_parent = Some p, f_name = Some nm, f_root = Some r\<rparr> = b"
    using assms(2-4) by (cases b) simp
  have "bind_to_schema h a n s
          = h(a \<mapsto> FieldObj \<lparr>f_parent = Some p, f_name = Some nm, f_root = Some r\<rparr>)"
    using assms by (simp add: bind_to_schema_def Let_def)
  then have "bind_to_schema h a n s = h(a \<mapsto> FieldObj b)"
    by (simp only: eq)
  also have "\<dots> = h"
    using assms(1) by (simp add: fun_upd_idem)
  finally show ?thesis .
qed

lemma bind_seq_Cons_heap:
  "bind_seq ((a, n, s) # calls) h = bind_seq calls (bind_to_schema h a n s)"
  by (simp add: bind_seq_def)

lemma bind_seq_append_heap: "bind_seq (xs @ ys) h = bind_seq ys (bind_seq xs h)"
  by (simp add: bind_seq_def)

lemma bound_field_stable_step:
  assumes "h a = Some (FieldObj b)" and "f_parent b = Some p" and "f_root b = Some r"
    and "f_name b = Some nm" and "nm \<noteq> []"
  shows "bind_to_schema h g n s a = h a"
proof (cases "g = a")
  case True
  then show ?thesis
    using bind_bound_noop [of h a b p r nm n s] assms by simp
next
  case False
  then show ?thesis
    by (simp add: bind_other)
qed

lemma bound_field_stable:
  assumes "h a = Some (FieldObj b)" and "f_parent b = Some p" and "f_root b = Some r"
    and "f_name b = Some nm" and "nm \<noteq> []"
  shows "bind_seq calls2 h a = h a"
  using assms(1)
proof (induction calls2 arbitrary: h)
  case Nil
  then show ?case by (simp add: bind_seq_def)
next
  case (Cons c calls2)
  obtain g n s where c: "c = (g, n, s)" by (cases c)
  have step: "bind_to_schema h g n s a = h a"
    using bound_field_stable_step [of h a b p r nm g n s] Cons.prems assms(2-5) by simp
  then have "bind_to_schema h g n s a = Some (FieldObj b)"
    using Cons.prems by simp
  then have "bind_seq calls2 (bind_to_schema h g n s) a = bind_to_schema h g n s a"
    by (rule Cons.IH)
  with step show ?case
    by (simp add: c bind_seq_Cons_heap)
qed

lemma bind_unbound_sets:
  assumes "h a = Some (FieldObj unbound)"
    and "(\<not> is_FieldABC h owner \<and> r = owner)
           \<or> (\<exists>pb. h owner = Some (FieldObj pb) \<and> f_root pb = Some r)"
  shows "bind_to_schema h a field_name owner a
           = Some (FieldObj \<lparr>f_parent = Some owner, f_name = Some field_name, f_root = Some r\<rparr>)"
  using assms(2)
proof
  assume "\<not> is_FieldABC h owner \<and> r = owner"
  then show ?thesis
    using assms(1)
    by (auto simp: bind_to_schema_def Let_def unbound_def is_FieldABC_def
          split: option.splits heap_obj.splits)
next
  assume "\<exists>pb. h owner = Some (FieldObj pb) \<and> f_root pb = Some r"
  then show ?thesis
    using assms(1)
    by (auto simp: bind_to_schema_def Let_def unbound_def)
qed

text \<open>
  Claim C9. Take a store reached by any run of bindings from one in which no field was
  bound, a field in it that is still unbound, a non-empty name, and an owner that is
  either no field or a field whose root is set. The first \<open>_bind_to_schema\<close> call sets
  the field's parent to the owner, its name to the given name and its root to the owner
  itself when the owner is no field and to the owner's root otherwise; that root is the
  first ancestor that is not a field, reached by following \<open>parent\<close>. A further call
  on the field, with any name and any owner, leaves the store as it is, and after any
  further run of bindings, of this field or of others, the field still holds the same
  parent, name and root, and the root is still its first ancestor that is not a field.
\<close>

theorem bind_to_schema_assigns_once:
  assumes "fresh_heap h0" and "h = bind_seq calls h0"
    and "h a = Some (FieldObj unbound)" and "field_name \<noteq> []"
    and "(\<not> is_FieldABC h owner \<and> r = owner)
           \<or> (\<exists>pb. h owner = Some (FieldObj pb) \<and> f_root pb = Some r)"
  shows "bind_to_schema h a field_name owner a
           = Some (FieldObj \<lparr>f_parent = Some owner, f_name = Some field_name, f_root = Some r\<rparr>)
       \<and> first_non_field_ancestor (bind_to_schema h a field_name owner) a r
       \<and> (\<forall>n' s'. bind_to_schema (bind_to_schema h a field_name owner) a n' s'
                    = bind_to_schema h a field_name owner)
       \<and> (\<forall>calls2. bind_seq calls2 (bind_to_schema h a field_name owner) a
                    = bind_to_schema h a field_name owner a
                 \<and> first_non_field_ancestor
                     (bind_seq calls2 (bind_to_schema h a field_name owner)) a r)"
proof -
  let ?h1 = "bind_to_schema h a field_name owner"
  let ?b = "\<lparr>f_parent = Some owner, f_name = Some field_name, f_root = Some r\<rparr>"
  have at: "?h1 a = Some (FieldObj ?b)"
    using bind_unbound_sets [of h a owner r field_name] assms(3,5) by simp
  have h1: "?h1 = bind_seq (calls @ [(a, field_name, owner)]) h0"
    by (simp add: assms(2) bind_seq_snoc)
  have later: "bind_seq calls2 ?h1 = bind_seq (calls @ [(a, field_name, owner)] @ calls2) h0" for calls2
    by (simp add: assms(2) bind_seq_append_heap bind_seq_Cons_heap)
  have ok: "roots_ok (bind_seq calls2 ?h1)" for calls2
    unfolding later using assms(1) by (rule bind_seq_roots_ok)
  have stable: "bind_seq calls2 ?h1 a = ?h1 a" for calls2
    using bound_field_stable [of ?h1 a ?b owner r field_name calls2] at assms(4) by simp
  have anc: "first_non_field_ancestor (bind_seq calls2 ?h1) a r" for calls2
  proof -
    have "bind_seq calls2 ?h1 a = Some (FieldObj ?b)"
      using stable [of calls2] at by simp
    moreover have "f_root ?b = Some r" by simp
    ultimately show ?thesis
      using ok [of calls2] unfolding roots_ok_def by blast
  qed
  have anc1: "first_non_field_ancestor ?h1 a r"
    using anc [of "[]"] by (simp add: bind_seq_def)
  have noop: "bind_to_schema ?h1 a n' s' = ?h1" for n' s'
    using bind_bound_noop [of ?h1 a ?b owner r field_name n' s'] at assms(4) by simp
  from at anc1 noop stable anc show ?thesis
    by simp
qed

text \<open>
  A schema at address 0 and two unbound fields, a list field at 1 and its inner field at
  2. The list field is bound to the schema, then the inner field to the list field: each
  gets its parent and the name, and both get the schema as root. Later calls with another
  name and owner change nothing.
\<close>

theorem bind_to_schema_assigns_once_witness:
  "bind_to_schema [0 \<mapsto> SchemaObj, 1 \<mapsto> FieldObj unbound, 2 \<mapsto> FieldObj unbound] 1 ''tags'' 0 1
     = Some (FieldObj \<lparr>f_parent = Some 0, f_name = Some ''tags'', f_root = Some 0\<rparr>)
   \<and> bind_to_schema
       (bind_seq [(1, ''tags'', 0)]
          [0 \<mapsto> SchemaObj, 1 \<mapsto> FieldObj unbound, 2 \<mapsto> FieldObj unbound])
       2 ''tags'' 1 2
     = Some (FieldObj \<lparr>f_parent = Some 1, f_name = Some ''tags'', f_root = Some 0\<rparr>)
   \<and> first_non_field_ancestor
       (bind_to_schema
         (bind_seq [(1, ''tags'', 0)]
            [0 \<mapsto> SchemaObj, 1 \<mapsto> FieldObj unbound, 2 \<mapsto> FieldObj unbound])
         2 ''tags'' 1)
       2 0
   \<and> bind_seq [(2, ''other'', 0), (1, ''x'', 2)]
       (bind_to_schema
         (bind_seq [(1, ''tags'', 0)]
            [0 \<mapsto> SchemaObj, 1 \<mapsto> FieldObj unbound, 2 \<mapsto> FieldObj unbound])
         2 ''tags'' 1)
       2
     = Some (FieldObj \<lparr>f_parent = Some 1, f_name = Some ''tags'', f_root = Some 0\<rparr>)"
proof -
  let ?start = "[0 \<mapsto> SchemaObj, 1 \<mapsto> FieldObj unbound, 2 \<mapsto> FieldObj unbound] :: heap"
  let ?mid = "bind_seq [(1, ''tags'', 0)] ?start"
  have fresh: "fresh_heap ?start"
    by (simp add: fresh_heap_def)
  have s0: "?start = bind_seq [] ?start"
    by (simp add: bind_seq_def)
  have u1: "?start 1 = Some (FieldObj unbound)"
    by simp
  have o1: "(\<not> is_FieldABC ?start 0 \<and> (0::nat) = 0)
      \<or> (\<exists>pb. ?start 0 = Some (FieldObj pb) \<and> f_root pb = Some 0)"
    by (simp add: is_FieldABC_def)
  have first: "bind_to_schema ?start 1 ''tags'' 0 1
      = Some (FieldObj \<lparr>f_parent = Some 0, f_name = Some ''tags'', f_root = Some 0\<rparr>)"
    using bind_to_schema_assigns_once
      [where ?h0.0 = ?start and h = ?start and calls = "[]" and a = 1
         and field_name = "''tags''" and owner = 0 and r = 0]
      fresh s0 u1 o1
    by simp
  have mid: "?mid = bind_to_schema ?start 1 ''tags'' 0"
    by (simp add: bind_seq_def)
  have u2: "?mid 2 = Some (FieldObj unbound)"
    by (simp add: bind_seq_def bind_to_schema_def Let_def)
  have o2: "(\<not> is_FieldABC ?mid 1 \<and> (0::nat) = 1)
      \<or> (\<exists>pb. ?mid 1 = Some (FieldObj pb) \<and> f_root pb = Some 0)"
    by (simp add: bind_seq_def bind_to_schema_def Let_def unbound_def)
  note inner = bind_to_schema_assigns_once
      [where ?h0.0 = ?start and h = ?mid and calls = "[(1, ''tags'', 0)]" and a = 2
         and field_name = "''tags''" and owner = 1 and r = 0, OF fresh refl u2 _ o2]
  have ne: "''tags'' \<noteq> []" by simp
  from inner [OF ne] first show ?thesis
    by simp
qed

end
